theory Spec2Isabelle
  imports Complex_Main "HOL-Library.Word"
begin

section \<open>Data model\<close>

text \<open>
  The hash ring of \<^verbatim>\<open>index.js\<close>: a \<^verbatim>\<open>HashRing\<close> object holds the sorted list of
  ring points, the parsed servers, the per-server virtual-node overrides and a lookup
  cache. A coordinate is an unsigned 32-bit integer.
\<close>

type_synonym u32 = "32 word"

text \<open>\<^verbatim>\<open>function Node(hashvalue, server) { this.value = hashvalue; this.server = server; }\<close>\<close>

record node =
  nvalue :: u32
  server :: string

text \<open>
  One server as the connection parser returns it: \<^verbatim>\<open>server.string\<close> is the canonical
  id, \<^verbatim>\<open>server.weight\<close> a number (a finite double, which is a rational). The overrides
  of the virtual nodes come as an object from ids to numbers, where the parser's
  extension \<^verbatim>\<open>vnodes\<close> stores 0 for a server without one.
\<close>

record connection =
  string :: string
  host :: string
  port :: nat
  weight :: rat

datatype error = TypeError

text \<open>
  The native packer \<^verbatim>\<open>hashValue.hash(a, b, c, d)\<close> receives JavaScript values; reading an
  array past its end gives \<^verbatim>\<open>undefined\<close>, which is \<open>None\<close> here.
\<close>

type_synonym packer = "nat option \<Rightarrow> nat option \<Rightarrow> nat option \<Rightarrow> nat option \<Rightarrow> u32"

text \<open>
  What the ring takes from outside its source: the native packer, and JavaScript's
  arithmetic on numbers that are not array positions. A weight is a finite double, hence
  a rational; \<open>js_plus\<close> is \<^verbatim>\<open>+\<close> on such numbers, and
  \<open>js_floor_length w tot vns n\<close> is how many times a loop
  \<^verbatim>\<open>for (i = 0; i < Math.floor((w / tot) * vns * n); i++)\<close> runs (no time when the
  floor is below 1 or is not a number; it is finite for the positive weights of the data
  model). Both round as doubles do, so they are parameters.
\<close>

record platform =
  native_hash :: packer
  js_plus :: "rat \<Rightarrow> rat \<Rightarrow> rat"
  js_floor_length :: "rat \<Rightarrow> rat \<Rightarrow> nat \<Rightarrow> nat \<Rightarrow> nat"

record options =
  points_per_server :: "nat option"
  vnode_count :: "nat option"
  compatibility :: "string option"

record hashring =
  pps :: nat
  vnode :: nat
  replicas :: nat
  hash :: "string \<Rightarrow> nat list"
  ring :: "node list"
  size_hr :: nat
  vnodes :: "string \<rightharpoonup> nat option"
  servers :: "connection list"
  cache :: "string \<rightharpoonup> string"

text \<open>\<^verbatim>\<open>xs[i]\<close> on a JavaScript array: \<^verbatim>\<open>undefined\<close> past the end.\<close>

definition elem :: "'a list \<Rightarrow> nat \<Rightarrow> 'a option" where
  "elem xs i = (if i < length xs then Some (xs ! i) else None)"

text \<open>
  \<^verbatim>\<open>obj[key]\<close> on a JavaScript object whose properties hold numbers or \<^verbatim>\<open>undefined\<close>:
  an absent property reads as \<^verbatim>\<open>undefined\<close> too.
\<close>

definition prop_read :: "(string \<rightharpoonup> nat option) \<Rightarrow> string \<Rightarrow> nat option" where
  "prop_read obj key = (case obj key of None \<Rightarrow> None | Some v \<Rightarrow> v)"

section \<open>Hashing\<close>

text \<open>
  \<^verbatim>\<open>digest(key)\<close> is \<^verbatim>\<open>this.hash(key + '').toString().split('').map(charCode)\<close>. The
  field \<open>hash\<close> stands for the substitutable digest function together with the string
  form of its result, one character code per element; \<^verbatim>\<open>charCodeAt(0)\<close> of a
  one-character string is that code.
\<close>

definition digest :: "hashring \<Rightarrow> string \<Rightarrow> nat list" where
  "digest st key = map (\<lambda>char. char) (hash st key)"

text \<open>\<^verbatim>\<open>hashValue(key)\<close>: \<^verbatim>\<open>x = this.digest(key); return hashValue.hash(x[3], x[2], x[1], x[0])\<close>.\<close>

definition hashValue :: "platform \<Rightarrow> hashring \<Rightarrow> string \<Rightarrow> u32" where
  "hashValue env st key =
     (let x = digest st key in native_hash env (elem x 3) (elem x 2) (elem x 1) (elem x 0))"

text \<open>
  An argument of the packer as a number: the spec is silent on an argument that is not a
  byte of the digest, and \<^verbatim>\<open>undefined\<close> counts as 0 here.
\<close>

definition byte_of :: "nat option \<Rightarrow> nat" where
  "byte_of v = (case v of None \<Rightarrow> 0 | Some b \<Rightarrow> b)"

text \<open>
  Modelled from the spec: the native module \<^verbatim>\<open>./build/Release/hashvalue\<close> is not among the
  sources. The spec (coordinate packing) gives the coordinate of the quartet at offset
  \<open>o\<close> as \<open>digest[o+3] + digest[o+2]*2^8 + digest[o+1]*2^16 + digest[o]*2^24\<close>, an unsigned
  32-bit integer; the callers pass \<open>(x[o+3], x[o+2], x[o+1], x[o])\<close>, so the first argument
  has weight 1 and the fourth weight \<open>2^24\<close>.
\<close>

definition hashvalue_hash :: packer where
  "hashvalue_hash a b c d =
     word_of_nat (byte_of a + byte_of b * 2 ^ 8 + byte_of c * 2 ^ 16 + byte_of d * 2 ^ 24)"

section \<open>Continuum\<close>

text \<open>The decimal string of an array position, as \<^verbatim>\<open>server.string + '-' + i\<close> builds it.\<close>

fun number_string :: "nat \<Rightarrow> string" where
  "number_string n =
     (if n < 10 then [char_of (48 + n)]
      else number_string (n div 10) @ [char_of (48 + n mod 10)])"

declare number_string.simps [simp del]

text \<open>
  \<^verbatim>\<open>self.ring[index] = new Node(key, server.string); index++\<close>: a write at a position
  inside the array replaces the element, a write at its end extends it. \<open>index\<close> starts
  at 0 and grows by one, so it never passes the end.
\<close>

definition put :: "node list \<times> nat \<Rightarrow> node \<Rightarrow> node list \<times> nat" where
  "put acc n =
     (case acc of (rng, index) \<Rightarrow>
        (if index < length rng then rng[index := n] else rng @ [n], index + 1))"

text \<open>The point of replica \<open>j\<close>: \<^verbatim>\<open>hashValue.hash(x[3 + j * 4], x[2 + j * 4], x[1 + j * 4], x[j * 4])\<close>.\<close>

definition replica_node :: "platform \<Rightarrow> connection \<Rightarrow> nat list \<Rightarrow> nat \<Rightarrow> node" where
  "replica_node env srv x j =
     \<lparr>nvalue = native_hash env (elem x (3 + j * 4)) (elem x (2 + j * 4)) (elem x (1 + j * 4))
                 (elem x (j * 4)),
      server = string srv\<rparr>"

text \<open>The body of the loop over \<open>i\<close>: one digest, then the loop over the replicas \<open>j\<close>.\<close>

definition place_vnode :: "platform \<Rightarrow> hashring \<Rightarrow> connection \<Rightarrow> nat \<Rightarrow> node list \<times> nat \<Rightarrow> node list \<times> nat" where
  "place_vnode env st srv i acc =
     (let x = digest st (string srv @ ''-'' @ number_string i)
      in fold (\<lambda>j acc. put acc (replica_node env srv x j)) [0..<replicas st] acc)"

text \<open>
  \<^verbatim>\<open>percentage = server.weight / total\<close>, \<^verbatim>\<open>vnodes = self.vnodes[server.string] || self.vnode\<close>,
  \<^verbatim>\<open>length = Math.floor(percentage * vnodes * servers.length)\<close>, the bound of the loop
  over \<open>i\<close>.
\<close>

definition server_vnodes :: "hashring \<Rightarrow> connection \<Rightarrow> nat" where
  "server_vnodes st srv =
     (case prop_read (vnodes st) (string srv) of
        None \<Rightarrow> vnode st
      | Some v \<Rightarrow> if v = 0 then vnode st else v)"

definition server_length :: "platform \<Rightarrow> hashring \<Rightarrow> rat \<Rightarrow> connection \<Rightarrow> nat" where
  "server_length env st tot srv =
     (let vns = server_vnodes st srv
      in js_floor_length env (weight srv) tot vns (length (servers st)))"

definition place_server :: "platform \<Rightarrow> hashring \<Rightarrow> rat \<Rightarrow> connection \<Rightarrow> node list \<times> nat \<Rightarrow> node list \<times> nat" where
  "place_server env st tot srv acc =
     fold (\<lambda>i acc. place_vnode env st srv i acc) [0..<server_length env st tot srv] acc"

text \<open>
  \<^verbatim>\<open>continuum\<close>: bail out without servers; otherwise total the weights, place every
  server's points from position 0 on, sort by coordinate and set \<^verbatim>\<open>size\<close>. The sort
  is stable, as the data model of the spec has it.
\<close>

definition continuum :: "platform \<Rightarrow> hashring \<Rightarrow> hashring" where
  "continuum env st =
     (if servers st = [] then st
      else
        let tot = foldl (\<lambda>tot srv. js_plus env tot (weight srv)) 0 (servers st);
            written = fold (place_server env st tot) (servers st) (ring st, 0);
            ring' = sort_key nvalue (fst written)
        in st\<lparr>ring := ring', size_hr := length ring'\<rparr>)"

section \<open>Lookup\<close>

text \<open>
  The loop of \<^verbatim>\<open>find\<close>. \<open>low\<close>, \<open>high\<close> and \<open>mid\<close> are array positions
  (\<open>high\<close> may reach \<open>-1\<close>). Rings are shorter than \<open>2^30\<close> points, so that
  \<open>low + high\<close> is a 32-bit integer and \<^verbatim>\<open>(low + high) >> 1\<close> is the floor of its half.
  \<^verbatim>\<open>ring[mid].value\<close> throws a TypeError when \<open>mid\<close> is not a position of the ring.
\<close>

function find_loop :: "node list \<Rightarrow> nat \<Rightarrow> u32 \<Rightarrow> int \<Rightarrow> int \<Rightarrow> error + nat" where
  "find_loop rng sz hv low high =
     (let mid = (low + high) div 2 in
      if mid = int sz then Inr 0
      else if mid < 0 \<or> int (length rng) \<le> mid then Inl TypeError
      else
        let middle = nvalue (rng ! nat mid);
            prev = (if mid = 0 then 0 else nvalue (rng ! nat (mid - 1)))
        in if hv \<le> middle \<and> hv > prev then Inr (nat mid)
           else
             let low' = (if middle < hv then mid + 1 else low);
                 high' = (if middle < hv then high else mid - 1)
             in if low' > high' then Inr 0
                else find_loop rng sz hv low' high')"
  by pat_completeness auto
termination
  by (relation "measure (\<lambda>(rng, sz, hv, low, high). nat (high - low))") auto

declare find_loop.simps [simp del]

definition find_hr :: "hashring \<Rightarrow> u32 \<Rightarrow> error + nat" where
  "find_hr st hv = find_loop (ring st) (size_hr st) hv 0 (int (size_hr st))"

text \<open>
  \<^verbatim>\<open>var cache = this.cache.get(key); if (cache) return cache;\<close> an empty string is falsy,
  as a missing entry is. The cache is taken as a finite map; that the real one is bounded
  and forgets entries is outside the ring.
\<close>

definition cache_get :: "hashring \<Rightarrow> string \<Rightarrow> string option" where
  "cache_get st key =
     (case cache st key of None \<Rightarrow> None | Some c \<Rightarrow> if c = [] then None else Some c)"

text \<open>\<^verbatim>\<open>var node = this.ring[this.find(this.hashValue(key))]\<close>, \<^verbatim>\<open>undefined\<close> past the ring.\<close>

definition node_for :: "platform \<Rightarrow> hashring \<Rightarrow> string \<Rightarrow> error + node option" where
  "node_for env st key =
     (case find_hr st (hashValue env st key) of
        Inl e \<Rightarrow> Inl e
      | Inr position \<Rightarrow> Inr (elem (ring st) position))"

text \<open>
  \<^verbatim>\<open>get(key)\<close>: the cached server if there is one; otherwise the node of the key,
  \<^verbatim>\<open>undefined\<close> (here \<open>None\<close>) when there is no node, else its server, stored in the cache.
  The result comes with the state after the call.
\<close>

definition get :: "platform \<Rightarrow> hashring \<Rightarrow> string \<Rightarrow> error + (string option \<times> hashring)" where
  "get env st key =
     (case cache_get st key of
        Some c \<Rightarrow> Inr (Some c, st)
      | None \<Rightarrow>
          (case node_for env st key of
             Inl e \<Rightarrow> Inl e
           | Inr None \<Rightarrow> Inr (None, st)
           | Inr (Some n) \<Rightarrow> Inr (Some (server n), st\<lparr>cache := (cache st)(key \<mapsto> server n)\<rparr>)))"

text \<open>
  The two loops of \<^verbatim>\<open>range\<close> share their body: push the server of the node (when
  \<open>unique\<close>, only if \<^verbatim>\<open>servers.indexOf\<close> does not find it), then return as soon as
  \<^verbatim>\<open>servers.length === size\<close>. The flag tells whether the loop returned.
\<close>

fun range_loop :: "node list \<Rightarrow> bool \<Rightarrow> nat \<Rightarrow> string list \<Rightarrow> string list \<times> bool" where
  "range_loop [] unique sz srvs = (srvs, False)"
| "range_loop (n # ns) unique sz srvs =
     (let srvs' = (if unique then (if server n \<in> set srvs then srvs else srvs @ [server n])
                   else srvs @ [server n])
      in if length srvs' = sz then (srvs', True) else range_loop ns unique sz srvs')"

text \<open>
  \<^verbatim>\<open>range(key, size, unique)\<close>: \<^verbatim>\<open>size = size || this.servers.length\<close>,
  \<^verbatim>\<open>unique = unique || 'undefined' === typeof unique\<close>; an omitted argument is \<open>None\<close>.
  The first loop runs over the positions from \<open>position\<close> to the end of the ring, the
  second over those before \<open>position\<close>.
\<close>

definition range_hr :: "platform \<Rightarrow> hashring \<Rightarrow> string \<Rightarrow> nat option \<Rightarrow> bool option \<Rightarrow> error + string list" where
  "range_hr env st key sz uniq =
     (if size_hr st = 0 then Inr []
      else
        let sz' = (case sz of None \<Rightarrow> length (servers st)
                   | Some n \<Rightarrow> if n = 0 then length (servers st) else n);
            unique = (case uniq of None \<Rightarrow> True | Some u \<Rightarrow> u)
        in case find_hr st (hashValue env st key) of
             Inl e \<Rightarrow> Inl e
           | Inr position \<Rightarrow>
               (case range_loop (drop position (ring st)) unique sz' [] of
                  (srvs, True) \<Rightarrow> Inr srvs
                | (srvs, False) \<Rightarrow>
                    Inr (fst (range_loop (take position (ring st)) unique sz' srvs))))"

section \<open>Mutations\<close>

text \<open>\<^verbatim>\<open>reset\<close>: \<^verbatim>\<open>this.ring.length = 0; this.size = 0; this.cache.reset()\<close>.\<close>

definition reset :: "hashring \<Rightarrow> hashring" where
  "reset st = st\<lparr>ring := [], size_hr := 0, cache := Map.empty\<rparr>"

text \<open>
  \<^verbatim>\<open>swap(from, to)\<close>. \<open>connection\<close> is \<^verbatim>\<open>parse(to).servers.pop()\<close>, \<^verbatim>\<open>undefined\<close>
  when the parser found no server; it is read only for a server whose id is \<open>from\<close>,
  and reading \<^verbatim>\<open>connection.host\<close> of \<^verbatim>\<open>undefined\<close> throws. The override of
  \<open>from\<close> is copied to \<open>to\<close> whatever it is, then \<open>from\<close> is deleted.
\<close>

definition swap :: "hashring \<Rightarrow> string \<Rightarrow> string \<Rightarrow> connection option \<Rightarrow> error + hashring" where
  "swap st from to connection =
     (let ring' = map (\<lambda>n. if server n = from then n\<lparr>server := to\<rparr> else n) (ring st);
          cache' = (\<lambda>key. case cache st key of
                             None \<Rightarrow> None
                           | Some v \<Rightarrow> Some (if v = from then to else v));
          vnodes' = ((vnodes st)(to \<mapsto> prop_read (vnodes st) from))(from := None)
      in case connection of
           None \<Rightarrow>
             if list_ex (\<lambda>srv. string srv = from) (servers st) then Inl TypeError
             else Inr (st\<lparr>ring := ring', cache := cache', vnodes := vnodes'\<rparr>)
         | Some c \<Rightarrow>
             Inr (st\<lparr>ring := ring', cache := cache', vnodes := vnodes',
                     servers := map (\<lambda>srv. if string srv = from
                                            then srv\<lparr>string := to, host := host c, port := port c\<rparr>
                                            else srv) (servers st)\<rparr>))"

text \<open>
  \<^verbatim>\<open>connections[server.string] = server\<close> on an object: a present key keeps its place,
  a new key comes last.
\<close>

fun obj_set :: "(string \<times> 'a) list \<Rightarrow> string \<Rightarrow> 'a \<Rightarrow> (string \<times> 'a) list" where
  "obj_set [] k v = [(k, v)]"
| "obj_set ((k', v') # kvs) k v =
     (if k' = k then (k, v) # kvs else (k', v') # obj_set kvs k v)"

text \<open>
  \<^verbatim>\<open>add(servers)\<close>. \<open>new\<close> is \<^verbatim>\<open>parse(servers).servers\<close>; \<open>parse\<close> is the connection
  parser applied to the merged object, giving the servers and the overrides.
\<close>

definition add :: "platform \<Rightarrow> ((string \<times> connection) list \<Rightarrow> connection list \<times> (string \<rightharpoonup> nat option)) \<Rightarrow> hashring \<Rightarrow> connection list \<Rightarrow> hashring" where
  "add env parse st new =
     (let connections = fold (\<lambda>srv obj. obj_set obj (string srv) srv) (servers st) [];
          connections' = fold (\<lambda>srv obj. if string srv \<in> fst ` set obj then obj
                                           else obj_set obj (string srv) srv) new connections;
          parsed = parse connections'
      in continuum env (reset (st\<lparr>vnodes := snd parsed, servers := fst parsed\<rparr>)))"

text \<open>
  \<^verbatim>\<open>remove(server)\<close>. \<open>connection\<close> is \<^verbatim>\<open>parse(server).servers.pop()\<close>; reading
  \<^verbatim>\<open>connection.string\<close> of \<^verbatim>\<open>undefined\<close> throws.
\<close>

definition remove :: "platform \<Rightarrow> hashring \<Rightarrow> connection option \<Rightarrow> error + hashring" where
  "remove env st connection =
     (case connection of
        None \<Rightarrow> Inl TypeError
      | Some c \<Rightarrow>
          Inr (continuum env (reset (st\<lparr>vnodes := (vnodes st)(string c := None),
                                         servers := filter (\<lambda>srv. string srv \<noteq> string c) (servers st)\<rparr>))))"

text \<open>
  The constructor, after the connection parser has split \<open>servers\<close> into the server
  list and the overrides. \<open>algorithm\<close> is the digest function (built in or custom).
  \<^verbatim>\<open>options[...] || default\<close> takes the default for 0 as for a missing option.
\<close>

definition HashRing :: "platform \<Rightarrow> connection list \<Rightarrow> (string \<rightharpoonup> nat option) \<Rightarrow> (string \<Rightarrow> nat list) \<Rightarrow> options \<Rightarrow> hashring" where
  "HashRing env srvs vns algorithm opts =
     continuum env
       \<lparr>pps = (case points_per_server opts of None \<Rightarrow> 160 | Some n \<Rightarrow> if n = 0 then 160 else n),
        vnode = (case vnode_count opts of None \<Rightarrow> 40 | Some n \<Rightarrow> if n = 0 then 40 else n),
        replicas = (case compatibility opts of
                      None \<Rightarrow> 4
                    | Some c \<Rightarrow> if c = [] then 4 else if c = ''hash_ring'' then 3 else 4),
        hash = algorithm,
        ring = [],
        size_hr = 0,
        vnodes = vns,
        servers = srvs,
        cache = Map.empty\<rparr>"

section \<open>Vocabulary of the properties\<close>

text \<open>
  The points the loops of \<^verbatim>\<open>continuum\<close> place, as lists: those of one virtual node,
  of one server, and of all servers in the order in which they are written;
  \<open>total_weight\<close> is the \<^verbatim>\<open>total\<close> of the weights.
\<close>

definition vnode_points :: "platform \<Rightarrow> hashring \<Rightarrow> connection \<Rightarrow> nat \<Rightarrow> node list" where
  "vnode_points env st srv i =
     map (replica_node env srv (digest st (string srv @ ''-'' @ number_string i))) [0..<replicas st]"

definition server_points :: "platform \<Rightarrow> hashring \<Rightarrow> rat \<Rightarrow> connection \<Rightarrow> node list" where
  "server_points env st tot srv =
     concat (map (vnode_points env st srv) [0..<server_length env st tot srv])"

definition total_weight :: "platform \<Rightarrow> hashring \<Rightarrow> rat" where
  "total_weight env st = foldl (js_plus env) 0 (map weight (servers st))"

definition all_points :: "platform \<Rightarrow> hashring \<Rightarrow> node list" where
  "all_points env st = concat (map (server_points env st (total_weight env st)) (servers st))"

text \<open>
  How many virtual nodes \<^verbatim>\<open>continuum\<close> places for a server in a state.
\<close>

definition placed :: "platform \<Rightarrow> hashring \<Rightarrow> connection \<Rightarrow> nat" where
  "placed env st srv = server_length env st (total_weight env st) srv"

text \<open>
  The length the spec gives the ring: the sum over the servers of
  \<open>floor((w / W) * vnodes * serverCount)\<close> times the replica count, \<open>W\<close> being the sum
  of the weights and \<open>vnodes\<close> the server's override or the base count. The floor is
  taken as the platform computes it.
\<close>

definition expected_length :: "platform \<Rightarrow> hashring \<Rightarrow> nat" where
  "expected_length env st =
     (\<Sum>srv\<leftarrow>servers st.
        js_floor_length env (weight srv) (foldl (js_plus env) 0 (map weight (servers st)))
          (case vnodes st (string srv) of
             Some (Some v) \<Rightarrow> if v = 0 then vnode st else v
           | _ \<Rightarrow> vnode st)
          (length (servers st))
        * replicas st)"


text \<open>
  \<open>successor_index rng hv i\<close>: \<open>i\<close> is the position the lookup of \<open>hv\<close> should give on
  the ring \<open>rng\<close>, the first point whose coordinate is at least \<open>hv\<close>, and position 0
  when \<open>hv\<close> is above every point. \<open>successor rng hv\<close> is the node there.
\<close>

definition successor_index :: "node list \<Rightarrow> u32 \<Rightarrow> nat \<Rightarrow> bool" where
  "successor_index rng hv i =
     (i < length rng \<and>
      (if list_ex (\<lambda>n. hv \<le> nvalue n) rng
       then hv \<le> nvalue (rng ! i) \<and> list_all (\<lambda>n. nvalue n < hv) (take i rng)
       else i = 0))"

definition successor :: "node list \<Rightarrow> u32 \<Rightarrow> node option" where
  "successor rng hv =
     (case List.find (\<lambda>n. hv \<le> nvalue n) rng of
        Some n \<Rightarrow> Some n
      | None \<Rightarrow> (case rng of [] \<Rightarrow> None | n # _ \<Rightarrow> Some n))"

text \<open>
  The server the ring gives a key, the cache aside: the server of the key's node.
\<close>

definition owner :: "platform \<Rightarrow> hashring \<Rightarrow> string \<Rightarrow> error + string option" where
  "owner env st key =
     (case node_for env st key of Inl e \<Rightarrow> Inl e | Inr n \<Rightarrow> Inr (map_option server n))"

text \<open>
  A consistent state: the \<^verbatim>\<open>size\<close> field is the length of the ring, and every cache entry
  holds the server the ring gives its key. The constructor and every operation keep it.
\<close>

definition consistent :: "platform \<Rightarrow> hashring \<Rightarrow> bool" where
  "consistent env st =
     (size_hr st = length (ring st) \<and>
      (\<forall>key v. cache st key = Some v \<longrightarrow> owner env st key = Inr (Some v)))"

text \<open>
  A sequence of \<^verbatim>\<open>get\<close> calls on one instance, each on the state the last one left.
\<close>

fun gets :: "platform \<Rightarrow> hashring \<Rightarrow> string list \<Rightarrow> error + hashring" where
  "gets env st [] = Inr st"
| "gets env st (key # keys) =
     (case get env st key of Inl e \<Rightarrow> Inl e | Inr (r, st') \<Rightarrow> gets env st' keys)"

text \<open>
  What \<^verbatim>\<open>swap(from, to)\<close> does to a server id.
\<close>

definition relabel :: "string \<Rightarrow> string \<Rightarrow> string \<Rightarrow> string" where
  "relabel from to v = (if v = from then to else v)"

text \<open>
  The ids of a walk with repetitions dropped, each id where the walk first meets it,
  after the ids \<open>seen\<close> already.
\<close>

fun first_seen :: "string list \<Rightarrow> string list \<Rightarrow> string list" where
  "first_seen seen [] = seen"
| "first_seen seen (x # xs) =
     (if x \<in> set seen then first_seen seen xs else first_seen (seen @ [x]) xs)"

section \<open>Examples\<close>

text \<open>
  A digest function for the examples, sixteen times the code of the first character;
  the packer of the spec with exact arithmetic; servers on one host; one virtual node
  for a server without override, and four replicas.
\<close>

definition first_char_hash :: "string \<Rightarrow> nat list" where
  "first_char_hash key = replicate 16 (case key of [] \<Rightarrow> 0 | c # _ \<Rightarrow> of_char c)"

definition exact_floor_length :: "rat \<Rightarrow> rat \<Rightarrow> nat \<Rightarrow> nat \<Rightarrow> nat" where
  "exact_floor_length w tot vns n =
     (let percentage = w / tot in nat \<lfloor>percentage * of_nat vns * of_nat n\<rfloor>)"

definition ex_platform :: platform where
  "ex_platform =
     \<lparr>native_hash = hashvalue_hash, js_plus = (+), js_floor_length = exact_floor_length\<rparr>"

definition ex_server :: "string \<Rightarrow> rat \<Rightarrow> connection" where
  "ex_server s w = \<lparr>string = s, host = ''localhost'', port = 11211, weight = w\<rparr>"

definition ex_options :: options where
  "ex_options = \<lparr>points_per_server = None, vnode_count = Some 1, compatibility = None\<rparr>"

text \<open>
  Three servers of weights 1, 2 and 3; the same ring after lookups of the keys A and C,
  after B is swapped for the new id D, and after the removal of A.
\<close>

definition ex_weighted :: hashring where
  "ex_weighted =
     HashRing ex_platform [ex_server ''A'' 1, ex_server ''B'' 2, ex_server ''C'' 3]
       Map.empty first_char_hash ex_options"

definition ex_cached :: hashring where
  "ex_cached = projr (gets ex_platform ex_weighted [''A'', ''C''])"


definition ex_removed :: hashring where
  "ex_removed = projr (remove ex_platform ex_weighted (Some (ex_server ''A'' 1)))"

text \<open>
  Two servers of equal weight with overrides of 1 and 2 virtual nodes, and the state
  after A is swapped for the existing B.
\<close>

definition ex_override :: hashring where
  "ex_override =
     HashRing ex_platform [ex_server ''A'' 1, ex_server ''B'' 1]
       [''A'' \<mapsto> Some 1, ''B'' \<mapsto> Some 2] first_char_hash ex_options"


text \<open>
  Two servers A and C of equal weight; then A swapped for B, and then the ring rebuilt
  by the removal of an id X that no server has; and the ring of A and C after the removal
  of C.
\<close>

definition ex_equal :: hashring where
  "ex_equal =
     HashRing ex_platform [ex_server ''A'' 1, ex_server ''C'' 1]
       [''A'' \<mapsto> Some 0, ''C'' \<mapsto> Some 0] first_char_hash ex_options"

definition ex_swapped :: hashring where
  "ex_swapped = projr (swap ex_equal ''A'' ''B'' (Some (ex_server ''B'' 1)))"

definition ex_rebuilt :: hashring where
  "ex_rebuilt = projr (remove ex_platform ex_swapped (Some (ex_server ''X'' 1)))"

definition ex_shrunk :: hashring where
  "ex_shrunk = projr (remove ex_platform ex_equal (Some (ex_server ''C'' 1)))"

text \<open>
  No server, and one server.
\<close>

definition ex_empty :: hashring where
  "ex_empty = HashRing ex_platform [] Map.empty first_char_hash ex_options"

definition ex_single :: hashring where
  "ex_single = HashRing ex_platform [ex_server ''A'' 1] Map.empty first_char_hash ex_options"

section \<open>The binary search\<close>

lemmas continuum_defs = HashRing_def continuum_def place_server_def server_length_def
  server_vnodes_def prop_read_def place_vnode_def put_def replica_node_def digest_def
  elem_def hashvalue_hash_def byte_of_def upt_rec number_string.simps ex_platform_def
  exact_floor_length_def

lemma ring_ex_weighted:
  "ring ex_weighted =
     [\<lparr>nvalue = 0x42424242, server = ''B''\<rparr>, \<lparr>nvalue = 0x42424242, server = ''B''\<rparr>,
      \<lparr>nvalue = 0x42424242, server = ''B''\<rparr>, \<lparr>nvalue = 0x42424242, server = ''B''\<rparr>,
      \<lparr>nvalue = 0x43434343, server = ''C''\<rparr>, \<lparr>nvalue = 0x43434343, server = ''C''\<rparr>,
      \<lparr>nvalue = 0x43434343, server = ''C''\<rparr>, \<lparr>nvalue = 0x43434343, server = ''C''\<rparr>]"
  by (simp add: ex_weighted_def ex_server_def ex_options_def first_char_hash_def continuum_defs)

lemma size_ex_weighted: "size_hr ex_weighted = 8"
  by (simp add: ex_weighted_def ex_server_def ex_options_def first_char_hash_def continuum_defs)

lemma find_loop_end:
  "(low + high) div 2 = int sz \<Longrightarrow> find_loop rng sz hv low high = Inr 0"
  by (subst find_loop.simps) (simp add: Let_def)

lemma find_loop_step:
  assumes "(low + high) div 2 = mid" "mid \<noteq> int sz" "0 \<le> mid" "mid < int (length rng)"
  shows "find_loop rng sz hv low high =
     (if hv \<le> nvalue (rng ! nat mid) \<and> (if mid = 0 then 0 else nvalue (rng ! nat (mid - 1))) < hv
      then Inr (nat mid)
      else if nvalue (rng ! nat mid) < hv
           then (if high < mid + 1 then Inr 0 else find_loop rng sz hv (mid + 1) high)
           else (if mid - 1 < low then Inr 0 else find_loop rng sz hv low (mid - 1)))"
proof -
  have "\<not> (mid < 0 \<or> int (length rng) \<le> mid)" using assms by simp
  then show ?thesis
    using assms(2)
    apply (subst find_loop.simps)
    apply (simp only: Let_def assms(1) if_False)
    apply (simp only: split: if_split)
    apply fastforce
    done
qed

lemma sorted_nvalue_le:
  "sorted (map nvalue rng) \<Longrightarrow> j \<le> k \<Longrightarrow> k < length rng \<Longrightarrow> nvalue (rng ! j) \<le> nvalue (rng ! k)"
  using sorted_nth_mono [of "map nvalue rng" j k] by simp

lemma find_loop_bounds:
  "0 \<le> low \<Longrightarrow> low \<le> high \<Longrightarrow> high \<le> int (length rng) \<Longrightarrow>
   \<exists>i. find_loop rng (length rng) hv low high = Inr i \<and> (i = 0 \<or> i < length rng)"
proof (induction "nat (high - low)" arbitrary: low high rule: less_induct)
  case less
  define mid where "mid = (low + high) div 2"
  have mid: "low \<le> mid" "mid \<le> high" using less.prems by (auto simp: mid_def)
  show ?case
  proof (cases "mid = int (length rng)")
    case True
    then show ?thesis by (simp add: find_loop_end mid_def)
  next
    case False
    with mid less.prems have inr: "0 \<le> mid" "mid < int (length rng)" by auto
    note step = find_loop_step [OF mid_def [symmetric] False inr, of hv]
    have up: "\<exists>i. find_loop rng (length rng) hv (mid + 1) high = Inr i \<and> (i = 0 \<or> i < length rng)"
      if "\<not> high < mid + 1"
      using that mid less.prems by (intro less.hyps) auto
    have down: "\<exists>i. find_loop rng (length rng) hv low (mid - 1) = Inr i \<and> (i = 0 \<or> i < length rng)"
      if "\<not> mid - 1 < low"
      using that mid less.prems by (intro less.hyps) auto
    show ?thesis
      unfolding step using up down inr by auto
  qed
qed

lemma find_loop_successor:
  assumes "sorted (map nvalue rng)" "rng \<noteq> []"
  shows "0 \<le> low \<Longrightarrow> low \<le> high \<Longrightarrow> high \<le> int (length rng) \<Longrightarrow>
   (low = 0 \<or> nvalue (rng ! nat (low - 1)) < hv) \<Longrightarrow>
   (high = int (length rng) \<or> hv \<le> nvalue (rng ! nat high)) \<Longrightarrow>
   \<exists>i. find_loop rng (length rng) hv low high = Inr i \<and> successor_index rng hv i"
proof (induction "nat (high - low)" arbitrary: low high rule: less_induct)
  case less
  define mid where "mid = (low + high) div 2"
  have mid: "low \<le> mid" "mid \<le> high" using less.prems by (auto simp: mid_def)
  have below: "list_all (\<lambda>n. nvalue n < hv) (take k rng)"
    if "0 < k" "k \<le> length rng" "nvalue (rng ! (k - 1)) < hv" for k
  proof -
    have "nvalue n < hv" if "n \<in> set (take k rng)" for n
    proof -
      from that obtain j where j: "j < k" "j < length rng" "n = rng ! j"
        by (auto simp: in_set_conv_nth)
      with \<open>0 < k\<close> \<open>k \<le> length rng\<close> have "nvalue (rng ! j) \<le> nvalue (rng ! (k - 1))"
        by (intro sorted_nvalue_le [OF assms(1)]) auto
      with j \<open>nvalue (rng ! (k - 1)) < hv\<close> show ?thesis by auto
    qed
    then show ?thesis by (simp add: list_all_iff)
  qed
  have zero: "successor_index rng hv 0" if "hv \<le> nvalue (rng ! 0)"
    using that assms(2) by (auto simp: successor_index_def list_ex_iff)
  show ?case
  proof (cases "mid = int (length rng)")
    case True
    with mid less.prems have "low = int (length rng)" by (auto simp: mid_def)
    moreover have "nat (int (length rng) - 1) = length rng - 1" by arith
    ultimately have last: "nvalue (rng ! (length rng - 1)) < hv"
      using less.prems assms(2) by auto
    from below [OF _ _ last] assms(2) have "list_all (\<lambda>n. nvalue n < hv) rng" by simp
    then have "\<not> list_ex (\<lambda>n. hv \<le> nvalue n) rng"
      by (auto simp: list_all_iff list_ex_iff)
    with True assms(2) show ?thesis
      by (simp add: find_loop_end mid_def successor_index_def)
  next
    case False
    with mid less.prems have inr: "0 \<le> mid" "mid < int (length rng)" by auto
    note step = find_loop_step [OF mid_def [symmetric] False inr, of hv]
    let ?middle = "nvalue (rng ! nat mid)"
    let ?prev = "if mid = 0 then 0 else nvalue (rng ! nat (mid - 1))"
    show ?thesis
    proof (cases "hv \<le> ?middle \<and> ?prev < hv")
      case True
      have "list_all (\<lambda>n. nvalue n < hv) (take (nat mid) rng)"
      proof (cases "mid = 0")
        case True then show ?thesis by simp
      next
        case False
        with True inr show ?thesis
          by (intro below) (auto simp: nat_diff_distrib)
      qed
      with True inr have "successor_index rng hv (nat mid)"
        by (auto simp: successor_index_def list_ex_iff)
      then show ?thesis by (simp only: step if_P [OF True]) simp
    next
      case nohit: False
      show ?thesis
      proof (cases "?middle < hv")
        case True
        have high: "\<not> high < mid + 1"
        proof
          assume "high < mid + 1"
          with mid have "mid = high" by simp
          with False less.prems True show False by auto
        qed
        have "\<exists>i. find_loop rng (length rng) hv (mid + 1) high = Inr i \<and> successor_index rng hv i"
          using high mid less.prems True inr by (intro less.hyps) auto
        then show ?thesis
          by (simp only: step if_not_P [OF nohit] if_P [OF True] if_not_P [OF high])
      next
        case ge: False
        then have middle: "hv \<le> ?middle" by (rule leI)
        with nohit have "\<not> ?prev < hv" by blast
        then have prev: "hv \<le> ?prev" by (rule leI)
        show ?thesis
        proof (cases "mid - 1 < low")
          case True
          with mid have "mid = low" by simp
          with prev less.prems have "mid = 0" by (cases "mid = 0") auto
          with middle have "successor_index rng hv 0" by (intro zero) simp
          then show ?thesis
            by (simp only: step if_not_P [OF nohit] if_not_P [OF ge] if_P [OF True]) simp
        next
          case False
          with less.prems have "mid \<noteq> 0" by auto
          with prev have "hv \<le> nvalue (rng ! nat (mid - 1))" by simp
          then have "\<exists>i. find_loop rng (length rng) hv low (mid - 1) = Inr i \<and> successor_index rng hv i"
            using False mid less.prems inr by (intro less.hyps) auto
          then show ?thesis
            by (simp only: step if_not_P [OF nohit] if_not_P [OF ge] if_not_P [OF False])
        qed
      qed
    qed
  qed
qed

lemma find_ex_weighted:
  "find_hr ex_weighted 0x42424243 = Inr 4" "find_hr ex_weighted 0x43434344 = Inr 0"
  "find_hr ex_weighted 0x41414141 = Inr 0"
  by (simp_all add: find_hr_def ring_ex_weighted size_ex_weighted find_loop.simps)

text \<open>
  C10. \<^verbatim>\<open>find\<close> is total: on every ring whose \<^verbatim>\<open>size\<close> field is the length of the
  ring (sorted or not, empty or not), and for every 32-bit value, the loop ends and
  returns a position (it throws nothing); the position is 0 on the empty ring and a
  position of the ring otherwise. That the loop ends on every input at all is the
  termination proof of \<open>find_loop\<close>.
\<close>

theorem find_total:
  assumes "size_hr st = length (ring st)"
  shows "\<exists>i. find_hr st h = Inr i \<and> (if ring st = [] then i = 0 else i < length (ring st))"
proof -
  from find_loop_bounds [of 0 "int (length (ring st))" "ring st" h]
  obtain i where "find_loop (ring st) (length (ring st)) h 0 (int (length (ring st))) = Inr i"
    "i = 0 \<or> i < length (ring st)" by auto
  with assms show ?thesis by (auto simp: find_hr_def)
qed

text \<open>On the example ring of eight points the theorem gives a position below 8.\<close>

theorem find_total_witness:
  "size_hr ex_weighted = length (ring ex_weighted) \<and>
   (\<exists>i. find_hr ex_weighted 0x42424243 = Inr i \<and>
        (if ring ex_weighted = [] then i = 0 else i < length (ring ex_weighted)))"
proof -
  have "size_hr ex_weighted = length (ring ex_weighted)"
    by (simp add: ring_ex_weighted size_ex_weighted)
  with find_total [OF this, of "0x42424243"] show ?thesis by blast
qed

text \<open>
  C1. On a non-empty ring sorted by coordinate, \<^verbatim>\<open>find(h)\<close> returns the position of
  the first point whose coordinate is at least \<open>h\<close>; when \<open>h\<close> is above every point it
  returns 0. Every exit of the loop, the two fallbacks that return 0 included, agrees
  with this.
\<close>

theorem find_first_at_least:
  assumes "size_hr st = length (ring st)" and "ring st \<noteq> []" and "sorted (map nvalue (ring st))"
  shows "\<exists>i. find_hr st h = Inr i \<and> i < length (ring st) \<and>
           (if \<exists>n \<in> set (ring st). h \<le> nvalue n
            then h \<le> nvalue (ring st ! i) \<and> (\<forall>j < i. nvalue (ring st ! j) < h)
            else i = 0)"
proof -
  from find_loop_successor [OF assms(3,2), of 0 "int (length (ring st))" h]
  obtain i where i: "find_loop (ring st) (length (ring st)) h 0 (int (length (ring st))) = Inr i"
    "successor_index (ring st) h i" by auto
  from i(2) have "i < length (ring st)" by (simp add: successor_index_def)
  moreover have "h \<le> nvalue (ring st ! i) \<and> (\<forall>j < i. nvalue (ring st ! j) < h)"
    if "\<exists>n \<in> set (ring st). h \<le> nvalue n"
  proof -
    from that i(2) have *: "h \<le> nvalue (ring st ! i)" "list_all (\<lambda>n. nvalue n < h) (take i (ring st))"
      by (auto simp: successor_index_def list_ex_iff)
    have "nvalue (ring st ! j) < h" if "j < i" for j
    proof -
      from that \<open>i < length (ring st)\<close> have "ring st ! j \<in> set (take i (ring st))"
        by (auto simp: in_set_conv_nth intro!: exI [of _ j])
      with *(2) show ?thesis by (simp add: list_all_iff)
    qed
    with * show ?thesis by blast
  qed
  moreover have "i = 0" if "\<not> (\<exists>n \<in> set (ring st). h \<le> nvalue n)"
    using that i(2) by (auto simp: successor_index_def list_ex_iff)
  ultimately show ?thesis using i(1) assms(1) by (auto simp: find_hr_def)
qed

text \<open>
  On the example ring, \<open>0x42424243\<close> lies between the points of B and those of C.
\<close>

theorem find_first_at_least_witness:
  "size_hr ex_weighted = length (ring ex_weighted) \<and> ring ex_weighted \<noteq> [] \<and>
   sorted (map nvalue (ring ex_weighted)) \<and>
   (\<exists>i. find_hr ex_weighted 0x42424243 = Inr i \<and> i < length (ring ex_weighted) \<and>
        (if \<exists>n \<in> set (ring ex_weighted). 0x42424243 \<le> nvalue n
         then 0x42424243 \<le> nvalue (ring ex_weighted ! i) \<and>
              (\<forall>j < i. nvalue (ring ex_weighted ! j) < 0x42424243)
         else i = 0))"
proof -
  have h: "size_hr ex_weighted = length (ring ex_weighted)" "ring ex_weighted \<noteq> []"
    "sorted (map nvalue (ring ex_weighted))"
    by (simp_all add: ring_ex_weighted size_ex_weighted)
  from find_first_at_least [OF h, of "0x42424243"] h show ?thesis by blast
qed

section \<open>The continuum as a list\<close>

lemma put_list:
  "index \<le> length rng \<Longrightarrow>
   fold (\<lambda>n acc. put acc n) ns (rng, index) =
     (take index rng @ ns @ drop (index + length ns) rng, index + length ns)"
proof (induction ns arbitrary: rng index)
  case Nil
  then show ?case by simp
next
  case (Cons n ns)
  show ?case
  proof (cases "index < length rng")
    case True
    then have "take (Suc index) (rng[index := n]) = take index rng @ [n]"
      by (simp add: take_Suc_conv_app_nth)
    with True Cons.IH [of "Suc index" "rng[index := n]"] show ?thesis
      by (simp add: put_def)
  next
    case False
    with Cons.prems have "index = length rng" by simp
    with Cons.IH [of "Suc index" "rng @ [n]"] show ?thesis
      by (simp add: put_def)
  qed
qed

lemma put_index: "snd (fold (\<lambda>n acc. put acc n) ns acc) = snd acc + length ns"
  by (induction ns arbitrary: acc) (auto simp: put_def split: prod.splits)

lemma place_vnode_list:
  "place_vnode env st srv i acc = fold (\<lambda>n acc. put acc n) (vnode_points env st srv i) acc"
  by (simp add: place_vnode_def vnode_points_def Let_def fold_map comp_def)

lemma fold_concat:
  "fold (\<lambda>i acc. fold f (g i) acc) is acc = fold f (concat (map g is)) acc"
  by (induction "is" arbitrary: acc) auto

lemma place_server_list:
  "place_server env st tot srv acc = fold (\<lambda>n acc. put acc n) (server_points env st tot srv) acc"
  by (simp add: place_server_def server_points_def place_vnode_list fold_concat)

lemma foldl_weight:
  "foldl (\<lambda>tot srv. js_plus env tot (weight srv)) a srvs = foldl (js_plus env) a (map weight srvs)"
  by (induction srvs arbitrary: a) auto

lemma ring_continuum:
  "ring (continuum env st) =
     (if servers st = [] then ring st
      else sort_key nvalue (all_points env st @ drop (length (all_points env st)) (ring st)))"
proof -
  have "fold (place_server env st tot) srvs acc =
        fold (\<lambda>n acc. put acc n) (concat (map (server_points env st tot) srvs)) acc" for tot srvs acc
    using fold_concat [of "\<lambda>n acc. put acc n" "server_points env st tot" srvs acc]
    by (simp add: place_server_list [abs_def])
  then show ?thesis
    by (simp add: continuum_def Let_def foldl_weight all_points_def total_weight_def put_list)
qed

lemma size_continuum:
  "size_hr (continuum env st) = (if servers st = [] then size_hr st else length (ring (continuum env st)))"
  by (simp add: continuum_def Let_def)

lemma continuum_fields [simp]:
  "servers (continuum env st) = servers st" "vnodes (continuum env st) = vnodes st"
  "cache (continuum env st) = cache st" "hash (continuum env st) = hash st"
  "replicas (continuum env st) = replicas st" "vnode (continuum env st) = vnode st"
  by (simp_all add: continuum_def Let_def)

lemma reset_fields [simp]:
  "servers (reset st) = servers st" "vnodes (reset st) = vnodes st"
  "cache (reset st) = Map.empty" "hash (reset st) = hash st"
  "replicas (reset st) = replicas st" "vnode (reset st) = vnode st"
  "ring (reset st) = []" "size_hr (reset st) = 0"
  by (simp_all add: reset_def)

lemma length_vnode_points [simp]: "length (vnode_points env st srv i) = replicas st"
  by (simp add: vnode_points_def)



section \<open>The ring invariant\<close>

lemma server_vnodes_eq:
  "server_vnodes st srv =
     (case vnodes st (string srv) of Some (Some v) \<Rightarrow> if v = 0 then vnode st else v | _ \<Rightarrow> vnode st)"
  by (simp add: server_vnodes_def prop_read_def split: option.splits)

lemma expected_length_eq:
  "expected_length env st =
     (\<Sum>srv\<leftarrow>servers st. server_length env st (total_weight env st) srv * replicas st)"
  by (simp add: expected_length_def server_length_def Let_def server_vnodes_eq total_weight_def)

lemma server_vnodes_cong:
  "vnodes st' = vnodes st \<Longrightarrow> vnode st' = vnode st \<Longrightarrow> server_vnodes st' = server_vnodes st"
  by (rule ext) (simp add: server_vnodes_def split: option.splits)

lemma server_length_cong:
  assumes "servers st' = servers st" "vnodes st' = vnodes st" "vnode st' = vnode st"
  shows "server_length env st' = server_length env st"
  by (intro ext) (simp add: server_length_def assms(1) server_vnodes_cong [OF assms(2,3)])

lemma vnode_points_cong:
  assumes "replicas st' = replicas st" "hash st' = hash st"
  shows "vnode_points env st' = vnode_points env st"
  by (intro ext) (simp add: vnode_points_def digest_def assms)

lemma all_points_cong:
  assumes "servers st' = servers st" "vnodes st' = vnodes st" "vnode st' = vnode st"
    "replicas st' = replicas st" "hash st' = hash st"
  shows "all_points env st' = all_points env st"
proof -
  have "server_points env st' = server_points env st"
    by (intro ext)
      (simp add: server_points_def server_length_cong [OF assms(1,2,3)]
        vnode_points_cong [OF assms(4,5)])
  then show ?thesis by (simp add: all_points_def total_weight_def assms(1))
qed

lemma expected_length_cong:
  assumes "servers st' = servers st" "vnodes st' = vnodes st" "vnode st' = vnode st"
    "replicas st' = replicas st"
  shows "expected_length env st' = expected_length env st"
  by (simp add: expected_length_eq total_weight_def assms(1,4) server_length_cong [OF assms(1,2,3)])

lemma all_points_reset [simp]: "all_points env (reset st) = all_points env st"
  by (rule all_points_cong) simp_all

lemma expected_length_rebuild [simp]:
  "expected_length env (continuum env' (reset st)) = expected_length env st"
  by (rule expected_length_cong) simp_all

lemma ring_rebuild:
  "ring (continuum env (reset st)) = (if servers st = [] then [] else sort_key nvalue (all_points env st))"
  by (simp add: ring_continuum)


lemma HashRing_rebuild:
  "\<exists>st. HashRing env srvs vns alg opts = continuum env (reset st)"
  by (rule exI [of _ "\<lparr>pps = _, vnode = _, replicas = _, hash = _, ring = [], size_hr = 0, vnodes = _, servers = _, cache = Map.empty\<rparr>"])
     (simp add: HashRing_def reset_def)

lemma add_rebuild: "\<exists>st'. add env parse st new = continuum env (reset st')"
  by (auto simp: add_def Let_def)

lemma remove_rebuild: "remove env st conn = Inr st' \<Longrightarrow> \<exists>st2. st' = continuum env (reset st2)"
  by (auto simp: remove_def split: option.splits)

lemma swap_ring:
  "swap st from to conn = Inr st' \<Longrightarrow>
   ring st' = map (\<lambda>n. if server n = from then n\<lparr>server := to\<rparr> else n) (ring st)"
  by (auto simp: swap_def Let_def split: option.splits if_splits)

lemma swap_coordinates:
  "swap st from to conn = Inr st' \<Longrightarrow> map nvalue (ring st') = map nvalue (ring st)"
  by (simp add: swap_ring comp_def if_distrib [of nvalue])


lemma swap_fields:
  "swap st from to conn = Inr st' \<Longrightarrow>
   vnodes st' = ((vnodes st)(to \<mapsto> prop_read (vnodes st) from))(from := None) \<and>
   vnode st' = vnode st \<and> replicas st' = replicas st \<and> hash st' = hash st \<and>
   size_hr st' = size_hr st"
  by (auto simp: swap_def Let_def split: option.splits if_splits)



lemma swap_Some: "swap st from to (Some c) = Inr (projr (swap st from to (Some c)))"
  by (simp add: swap_def Let_def)

lemma remove_Some: "remove env st (Some c) = Inr (projr (remove env st (Some c)))"
  by (simp add: remove_def)

lemmas ex_defs = ex_server_def ex_options_def first_char_hash_def

lemma servers_ex_weighted:
  "servers ex_weighted = [ex_server ''A'' 1, ex_server ''B'' 2, ex_server ''C'' 3]"
  by (simp add: ex_weighted_def HashRing_def)






section \<open>Lookup and the cache\<close>

lemma find_hr_total:
  "size_hr st = length (ring st) \<Longrightarrow>
   \<exists>i. find_hr st hv = Inr i \<and> (if ring st = [] then i = 0 else i < length (ring st))"
  using find_loop_bounds [of 0 "int (length (ring st))" "ring st" hv]
  by (auto simp: find_hr_def)

lemma node_for_total:
  assumes "size_hr st = length (ring st)"
  shows "\<exists>n. node_for env st key = Inr n \<and> (ring st = [] \<longleftrightarrow> n = None)"
  using find_hr_total [OF assms, of "hashValue env st key"]
  by (auto simp: node_for_def elem_def split: if_splits)

lemma owner_total:
  assumes "size_hr st = length (ring st)"
  shows "\<exists>r. owner env st key = Inr r \<and> (ring st = [] \<longleftrightarrow> r = None)"
  using node_for_total [OF assms, of env key] by (auto simp: owner_def)

lemma hashValue_cache [simp]: "hashValue env (st\<lparr>cache := c\<rparr>) = hashValue env st"
  by (simp add: fun_eq_iff hashValue_def digest_def)

lemma find_hr_cache [simp]: "find_hr (st\<lparr>cache := c\<rparr>) = find_hr st"
  by (simp add: fun_eq_iff find_hr_def)

lemma node_for_cache [simp]: "node_for env (st\<lparr>cache := c\<rparr>) = node_for env st"
  by (simp add: fun_eq_iff node_for_def split: sum.splits)

lemma owner_cache [simp]: "owner env (st\<lparr>cache := c\<rparr>) = owner env st"
  by (simp add: fun_eq_iff owner_def)

lemma get_owner:
  assumes "consistent env st"
  shows "\<exists>r c. get env st key = Inr (r, st\<lparr>cache := c\<rparr>) \<and> owner env st key = Inr r \<and>
           consistent env (st\<lparr>cache := c\<rparr>)"
proof (cases "cache_get st key")
  case (Some v)
  then have "cache st key = Some v" by (auto simp: cache_get_def split: option.splits if_splits)
  with assms have "owner env st key = Inr (Some v)" by (simp add: consistent_def)
  moreover from Some have "get env st key = Inr (Some v, st\<lparr>cache := cache st\<rparr>)"
    by (simp add: get_def)
  moreover from assms have "consistent env (st\<lparr>cache := cache st\<rparr>)" by simp
  ultimately show ?thesis by blast
next
  case None
  from assms have wf: "size_hr st = length (ring st)" by (simp add: consistent_def)
  from node_for_total [OF wf, of env key] obtain n where n: "node_for env st key = Inr n" by blast
  show ?thesis
  proof (cases n)
    case None
    with n \<open>cache_get st key = None\<close> have "get env st key = Inr (None, st\<lparr>cache := cache st\<rparr>)"
      by (simp add: get_def)
    moreover from n None have "owner env st key = Inr None" by (simp add: owner_def)
    moreover from assms have "consistent env (st\<lparr>cache := cache st\<rparr>)" by simp
    ultimately show ?thesis by blast
  next
    case (Some nd)
    let ?c = "(cache st)(key \<mapsto> server nd)"
    from n Some \<open>cache_get st key = None\<close>
    have "get env st key = Inr (Some (server nd), st\<lparr>cache := ?c\<rparr>)"
      by (simp add: get_def)
    moreover from n Some have o: "owner env st key = Inr (Some (server nd))"
      by (simp add: owner_def)
    moreover from assms o have "consistent env (st\<lparr>cache := ?c\<rparr>)"
      by (auto simp: consistent_def)
    ultimately show ?thesis by blast
  qed
qed

lemma gets_cache:
  "consistent env st \<Longrightarrow>
   \<exists>c. gets env st keys = Inr (st\<lparr>cache := c\<rparr>) \<and> consistent env (st\<lparr>cache := c\<rparr>)"
proof (induction keys arbitrary: st)
  case Nil
  then have "gets env st [] = Inr (st\<lparr>cache := cache st\<rparr>)" "consistent env (st\<lparr>cache := cache st\<rparr>)"
    by simp_all
  then show ?case by blast
next
  case (Cons key keys)
  from get_owner [OF Cons.prems, of key] obtain r c where
    g: "get env st key = Inr (r, st\<lparr>cache := c\<rparr>)" and c: "consistent env (st\<lparr>cache := c\<rparr>)"
    by blast
  from Cons.IH [OF c] g show ?case by auto
qed

lemma consistent_rebuild: "consistent env (continuum env (reset st))"
  by (simp add: consistent_def size_continuum ring_continuum)

lemma consistent_HashRing: "consistent env (HashRing env srvs vns alg opts)"
  using HashRing_rebuild [of env srvs vns alg opts] by (auto simp: consistent_rebuild)

text \<open>
  C6. For fixed servers, digest function and options, \<^verbatim>\<open>get(key)\<close> returns the same
  server whatever calls of \<^verbatim>\<open>get\<close> the instance has answered before, so whether the
  answer comes from the cache or is computed; two instances built from the same inputs,
  each after any such calls, return the same server. No call throws.
\<close>

theorem get_deterministic:
  "\<exists>s1 s2 r t1 t2.
     gets env (HashRing env srvs vns alg opts) keys1 = Inr s1 \<and>
     gets env (HashRing env srvs vns alg opts) keys2 = Inr s2 \<and>
     get env s1 key = Inr (r, t1) \<and> get env s2 key = Inr (r, t2)"
proof -
  let ?st = "HashRing env srvs vns alg opts"
  note c = consistent_HashRing [of env srvs vns alg opts]
  from gets_cache [OF c, of keys1] obtain c1 where
    1: "gets env ?st keys1 = Inr (?st\<lparr>cache := c1\<rparr>)" "consistent env (?st\<lparr>cache := c1\<rparr>)" by blast
  from gets_cache [OF c, of keys2] obtain c2 where
    2: "gets env ?st keys2 = Inr (?st\<lparr>cache := c2\<rparr>)" "consistent env (?st\<lparr>cache := c2\<rparr>)" by blast
  from get_owner [OF 1(2), of key] obtain r1 t1 where
    r1: "get env (?st\<lparr>cache := c1\<rparr>) key = Inr (r1, t1)" "owner env ?st key = Inr r1" by auto
  from get_owner [OF 2(2), of key] obtain r2 t2 where
    r2: "get env (?st\<lparr>cache := c2\<rparr>) key = Inr (r2, t2)" "owner env ?st key = Inr r2" by auto
  from r1(2) r2(2) have "r1 = r2" by simp
  with 1(1) 2(1) r1(1) r2(1) show ?thesis by blast
qed

section \<open>Swap\<close>

lemma find_loop_coordinates:
  assumes "map nvalue rng' = map nvalue rng"
  shows "0 \<le> low \<Longrightarrow> low \<le> high \<Longrightarrow> high \<le> int (length rng) \<Longrightarrow>
    find_loop rng' (length rng) hv low high = find_loop rng (length rng) hv low high"
proof (induction "nat (high - low)" arbitrary: low high rule: less_induct)
  case less
  from assms have len: "length rng' = length rng" by (metis length_map)
  have nth: "nvalue (rng' ! i) = nvalue (rng ! i)" if "i < length rng" for i
    using that assms len by (metis nth_map)
  define mid where "mid = (low + high) div 2"
  have mid: "low \<le> mid" "mid \<le> high" using less.prems by (auto simp: mid_def)
  show ?case
  proof (cases "mid = int (length rng)")
    case True
    then show ?thesis by (simp add: find_loop_end mid_def)
  next
    case False
    with mid less.prems have inr: "0 \<le> mid" "mid < int (length rng)" by auto
    from inr have inr': "mid < int (length rng')" by (simp add: len)
    note step = find_loop_step [OF mid_def [symmetric] False inr, of hv]
    note step' = find_loop_step [OF mid_def [symmetric] False inr(1) inr', of hv]
    have m: "nvalue (rng' ! nat mid) = nvalue (rng ! nat mid)" using inr by (intro nth) auto
    have p: "nvalue (rng' ! nat (mid - 1)) = nvalue (rng ! nat (mid - 1))" using inr by (intro nth) auto
    have up: "find_loop rng' (length rng) hv (mid + 1) high = find_loop rng (length rng) hv (mid + 1) high"
      if "\<not> high < mid + 1"
      using that mid less.prems by (intro less.hyps) auto
    have down: "find_loop rng' (length rng) hv low (mid - 1) = find_loop rng (length rng) hv low (mid - 1)"
      if "\<not> mid - 1 < low"
      using that mid less.prems by (intro less.hyps) auto
    show ?thesis
      unfolding step step' m p using up down by simp
  qed
qed

lemma swap_find_hr:
  assumes "swap st from to conn = Inr st'" "size_hr st = length (ring st)"
  shows "find_hr st' hv = find_hr st hv"
  using find_loop_coordinates [OF swap_coordinates [OF assms(1)], of 0 "int (length (ring st))" hv]
    swap_fields [OF assms(1)] assms(2)
  by (simp add: find_hr_def)

lemma swap_hashValue:
  assumes "swap st from to conn = Inr st'"
  shows "hashValue env st' key = hashValue env st key"
  using swap_fields [OF assms] by (simp add: hashValue_def digest_def)

lemma swap_owner:
  assumes "swap st from to conn = Inr st'" "size_hr st = length (ring st)"
  shows "owner env st' key = map_sum id (map_option (relabel from to)) (owner env st key)"
proof -
  from find_hr_total [OF assms(2), of "hashValue env st key"] obtain i where
    i: "find_hr st (hashValue env st key) = Inr i" by blast
  have "map_option server (elem (ring st') i) = map_option (relabel from to) (map_option server (elem (ring st) i))"
    by (simp add: swap_ring [OF assms(1)] elem_def relabel_def)
  with i show ?thesis
    by (simp add: owner_def node_for_def swap_find_hr [OF assms] swap_hashValue [OF assms(1)])
qed

lemma swap_cache:
  "swap st from to conn = Inr st' \<Longrightarrow> cache st' key = map_option (relabel from to) (cache st key)"
  by (auto simp: swap_def Let_def relabel_def split: option.splits if_splits)

lemma swap_consistent:
  assumes "swap st from to conn = Inr st'" "consistent env st"
  shows "consistent env st'"
proof -
  from assms(2) have wf: "size_hr st = length (ring st)" by (simp add: consistent_def)
  have "size_hr st' = length (ring st')"
    using wf swap_fields [OF assms(1)] arg_cong [OF swap_coordinates [OF assms(1)], of length]
    by simp
  moreover have "owner env st' key = Inr (Some v)" if "cache st' key = Some v" for key v
  proof -
    from that swap_cache [OF assms(1), of key] obtain u where
      u: "cache st key = Some u" "v = relabel from to u" by (cases "cache st key") auto
    with assms(2) have "owner env st key = Inr (Some u)" by (simp add: consistent_def)
    with u show ?thesis by (simp add: swap_owner [OF assms(1) wf])
  qed
  ultimately show ?thesis by (simp add: consistent_def)
qed

text \<open>The constructor and every operation give a consistent state.\<close>

lemma consistent_kept:
  "consistent env (HashRing env srvs vns alg opts)"
  "consistent env (add env parse st new)"
  "remove env st gone = Inr st' \<Longrightarrow> consistent env st'"
  "consistent env (reset st)"
  "consistent env st \<Longrightarrow> swap st from to conn = Inr st' \<Longrightarrow> consistent env st'"
  "consistent env st \<Longrightarrow> get env st key = Inr (r, st') \<Longrightarrow> consistent env st'"
proof -
  show "consistent env (HashRing env srvs vns alg opts)" by (rule consistent_HashRing)
  show "consistent env (add env parse st new)"
  proof -
    obtain st2 where "add env parse st new = continuum env (reset st2)"
      using add_rebuild by blast
    then show ?thesis by (simp only: consistent_rebuild)
  qed
  show "consistent env st'" if rm: "remove env st gone = Inr st'"
  proof -
    obtain st2 where "st' = continuum env (reset st2)"
      using remove_rebuild [OF rm] by blast
    then show ?thesis by (simp only: consistent_rebuild)
  qed
  show "consistent env (reset st)"
    by (simp add: consistent_def reset_def)
  show "consistent env st'" if "consistent env st" "swap st from to conn = Inr st'"
    using that(2) that(1) by (rule swap_consistent)
  show "consistent env st'" if ok: "consistent env st" and got: "get env st key = Inr (r, st')"
  proof -
    obtain r2 c where "get env st key = Inr (r2, st\<lparr>cache := c\<rparr>)"
      "consistent env (st\<lparr>cache := c\<rparr>)"
      using get_owner [OF ok, of key] by blast
    with got show ?thesis by simp
  qed
qed

text \<open>
  C4. On every consistent state, \<^verbatim>\<open>swap(from, to)\<close> (with \<open>to\<close> parsed to a connection)
  returns, and afterwards: for every key \<^verbatim>\<open>get(key)\<close> is \<open>to\<close> where it was \<open>from\<close> and
  is unchanged otherwise; the ring has the same coordinates at the same positions, hence
  the same length; and the cache holds \<open>to\<close> exactly where it held \<open>from\<close>, every other
  entry being as it was.
\<close>

theorem swap_relabels:
  assumes "consistent env st"
  shows "\<exists>st'. swap st from to (Some c) = Inr st' \<and>
           (\<forall>key. \<exists>r t t'. get env st key = Inr (r, t) \<and>
                     get env st' key = Inr (map_option (\<lambda>v. if v = from then to else v) r, t')) \<and>
           map nvalue (ring st') = map nvalue (ring st) \<and>
           (\<forall>key. cache st' key = map_option (\<lambda>v. if v = from then to else v) (cache st key))"
proof -
  define st' where "st' = projr (swap st from to (Some c))"
  have sw: "swap st from to (Some c) = Inr st'" unfolding st'_def by (rule swap_Some)
  from assms have wf: "size_hr st = length (ring st)" by (simp add: consistent_def)
  note c' = swap_consistent [OF sw assms]
  have "\<exists>r t t'. get env st key = Inr (r, t) \<and>
          get env st' key = Inr (map_option (\<lambda>v. if v = from then to else v) r, t')" for key
  proof -
    from get_owner [OF assms, of key] obtain r t where
      r: "get env st key = Inr (r, t)" "owner env st key = Inr r" by blast
    from get_owner [OF c', of key] obtain r' t' where
      r': "get env st' key = Inr (r', t')" "owner env st' key = Inr r'" by blast
    from r(2) r'(2) have "r' = map_option (relabel from to) r"
      by (simp add: swap_owner [OF sw wf])
    with r(1) r'(1) show ?thesis by (auto simp: relabel_def [abs_def])
  qed
  moreover note swap_coordinates [OF sw]
  moreover have "cache st' key = map_option (\<lambda>v. if v = from then to else v) (cache st key)" for key
    using swap_cache [OF sw, of key] by (simp add: relabel_def [abs_def])
  ultimately show ?thesis using sw by blast
qed

lemma consistent_ex_cached: "consistent ex_platform ex_cached"
  using gets_cache [OF consistent_HashRing, of ex_platform
      "[ex_server ''A'' 1, ex_server ''B'' 2, ex_server ''C'' 3]" Map.empty first_char_hash
      ex_options "[''A'', ''C'']"]
  by (auto simp: ex_cached_def ex_weighted_def)

text \<open>
  On the example ring after lookups of A and C, with B swapped for the new id D.
\<close>

theorem swap_relabels_witness:
  "consistent ex_platform ex_cached \<and>
   (\<exists>st'. swap ex_cached ''B'' ''D'' (Some (ex_server ''D'' 2)) = Inr st' \<and>
      (\<forall>key. \<exists>r t t'. get ex_platform ex_cached key = Inr (r, t) \<and>
                get ex_platform st' key = Inr (map_option (\<lambda>v. if v = ''B'' then ''D'' else v) r, t')) \<and>
      map nvalue (ring st') = map nvalue (ring ex_cached) \<and>
      (\<forall>key. cache st' key = map_option (\<lambda>v. if v = ''B'' then ''D'' else v) (cache ex_cached key)))"
  using swap_relabels [OF consistent_ex_cached, of "''B''" "''D''" "ex_server ''D'' 2"]
    consistent_ex_cached
  by blast

section \<open>No servers\<close>

lemma get_empty:
  assumes "size_hr st = 0" "ring st = []" "cache st = Map.empty"
  shows "get env st key = Inr (None, st)"
proof -
  have "find_hr st (hashValue env st key) = Inr 0"
    using assms by (simp add: find_hr_def find_loop_end)
  with assms show ?thesis by (simp add: get_def cache_get_def node_for_def elem_def)
qed

lemma rebuild_empty:
  assumes "servers st = []"
  shows "ring (continuum env (reset st)) = [] \<and>
         get env (continuum env (reset st)) key = Inr (None, continuum env (reset st))"
proof -
  from assms have "continuum env (reset st) = reset st" by (simp add: continuum_def)
  then show ?thesis by (simp add: get_empty)
qed

text \<open>
  C7. Without servers \<^verbatim>\<open>continuum\<close> changes nothing. A ring constructed from no
  servers is empty, the ring rebuilt for an empty server set (as \<^verbatim>\<open>add\<close> and
  \<^verbatim>\<open>remove\<close> rebuild it) is empty, and so is the ring after the removal of the id that
  every server has; on each of them \<^verbatim>\<open>get(key)\<close> returns \<^verbatim>\<open>undefined\<close> for every key,
  it does not throw, and it leaves the state as it is.
\<close>

theorem empty_server_set:
  "(servers st = [] \<longrightarrow> continuum env st = st) \<and>
   ring (HashRing env [] vns alg opts) = [] \<and>
   get env (HashRing env [] vns alg opts) key = Inr (None, HashRing env [] vns alg opts) \<and>
   (servers st = [] \<longrightarrow>
      ring (continuum env (reset st)) = [] \<and>
      get env (continuum env (reset st)) key = Inr (None, continuum env (reset st))) \<and>
   ((\<forall>srv \<in> set (servers st). string srv = string c) \<longrightarrow>
      (\<exists>st'. remove env st (Some c) = Inr st' \<and> ring st' = [] \<and> get env st' key = Inr (None, st')))"
proof (intro conjI impI)
  show "continuum env st = st" if "servers st = []"
    using that by (simp add: continuum_def)
  have "HashRing env [] vns alg opts = reset (HashRing env [] vns alg opts)"
    by (simp add: HashRing_def continuum_def reset_def)
  then have e: "size_hr (HashRing env [] vns alg opts) = 0" "ring (HashRing env [] vns alg opts) = []"
    "cache (HashRing env [] vns alg opts) = Map.empty"
    by (metis reset_fields(8), metis reset_fields(7), metis reset_fields(3))
  from e(2) show "ring (HashRing env [] vns alg opts) = []" .
  from e show "get env (HashRing env [] vns alg opts) key = Inr (None, HashRing env [] vns alg opts)"
    by (rule get_empty)
  show "ring (continuum env (reset st)) = []" if "servers st = []"
    using rebuild_empty [OF that] by simp
  show "get env (continuum env (reset st)) key = Inr (None, continuum env (reset st))" if "servers st = []"
    using rebuild_empty [OF that] by simp
  show "\<exists>st'. remove env st (Some c) = Inr st' \<and> ring st' = [] \<and> get env st' key = Inr (None, st')"
    if "\<forall>srv \<in> set (servers st). string srv = string c"
  proof -
    let ?st2 = "st\<lparr>vnodes := (vnodes st)(string c := None),
                   servers := filter (\<lambda>srv. string srv \<noteq> string c) (servers st)\<rparr>"
    from that have "servers ?st2 = []" by (simp add: filter_empty_conv)
    from rebuild_empty [OF this, of env key] show ?thesis by (simp add: remove_def)
  qed
qed

lemma servers_ex_single: "servers ex_single = [ex_server ''A'' 1]"
  by (simp add: ex_single_def HashRing_def)

lemma servers_ex_empty: "servers ex_empty = []"
  by (simp add: ex_empty_def HashRing_def)

text \<open>On the ring built from no server, and on the removal of the only server A.\<close>

theorem empty_server_set_witness:
  "servers ex_empty = [] \<and> continuum ex_platform ex_empty = ex_empty \<and>
   ring (continuum ex_platform (reset ex_empty)) = [] \<and>
   get ex_platform (continuum ex_platform (reset ex_empty)) ''key'' =
     Inr (None, continuum ex_platform (reset ex_empty)) \<and>
   list_all (\<lambda>srv. string srv = ''A'') (servers ex_single) \<and>
   (\<exists>st'. remove ex_platform ex_single (Some (ex_server ''A'' 1)) = Inr st' \<and> ring st' = [] \<and>
      get ex_platform st' ''key'' = Inr (None, st'))"
proof -
  have e: "servers ex_empty = []" by (rule servers_ex_empty)
  have a: "\<forall>srv \<in> set (servers ex_single). string srv = string (ex_server ''A'' 1)"
    by (simp add: servers_ex_single ex_server_def)
  from empty_server_set [of ex_empty ex_platform _ _ _ "''key''"] e
  have 1: "continuum ex_platform ex_empty = ex_empty"
    "ring (continuum ex_platform (reset ex_empty)) = []"
    "get ex_platform (continuum ex_platform (reset ex_empty)) ''key'' =
       Inr (None, continuum ex_platform (reset ex_empty))"
    by blast+
  from empty_server_set [of ex_single ex_platform _ _ _ "''key''" "ex_server ''A'' 1"] a
  have 2: "\<exists>st'. remove ex_platform ex_single (Some (ex_server ''A'' 1)) = Inr st' \<and> ring st' = [] \<and>
      get ex_platform st' ''key'' = Inr (None, st')"
    by blast
  from a have "list_all (\<lambda>srv. string srv = ''A'') (servers ex_single)"
    by (simp add: list_all_iff ex_server_def)
  with e 1 2 show ?thesis by blast
qed

section \<open>Mutations with an unknown id\<close>

lemma owner_cong:
  assumes "ring st' = ring st" "size_hr st' = size_hr st" "hash st' = hash st"
  shows "owner env st' key = owner env st key"
  by (simp add: owner_def node_for_def find_hr_def hashValue_def digest_def assms split: sum.splits)

lemma same_owner_same_get:
  assumes "consistent env st" "consistent env st'" "owner env st' key = owner env st key"
  shows "\<exists>r t t'. get env st key = Inr (r, t) \<and> get env st' key = Inr (r, t')"
proof -
  from get_owner [OF assms(1), of key] obtain r t where
    r: "get env st key = Inr (r, t)" "owner env st key = Inr r" by blast
  from get_owner [OF assms(2), of key] obtain r' t' where
    r': "get env st' key = Inr (r', t')" "owner env st' key = Inr r'" by blast
  from r(2) r'(2) assms(3) have "r' = r" by simp
  with r(1) r'(1) show ?thesis by blast
qed

lemma remove_unknown:
  assumes "string c \<notin> string ` set (servers st)" "dom (vnodes st) \<subseteq> string ` set (servers st)"
  shows "remove env st (Some c) = Inr (continuum env (reset st))"
proof -
  from assms have "vnodes st (string c) = None" by blast
  then have "(vnodes st)(string c := None) = vnodes st" by (metis fun_upd_idem)
  moreover from assms(1) have "filter (\<lambda>srv. string srv \<noteq> string c) (servers st) = servers st"
    by (auto simp: filter_id_conv) (metis imageI)
  ultimately show ?thesis by (simp add: remove_def)
qed

lemma swap_unknown:
  assumes "from \<notin> string ` set (servers st)" "from \<notin> server ` set (ring st)"
  shows "\<exists>st'. swap st from to conn = Inr st' \<and> servers st' = servers st \<and> ring st' = ring st"
proof -
  from assms(1) have no: "\<not> list_ex (\<lambda>srv. string srv = from) (servers st)"
    by (auto simp: list_ex_iff)
  from assms(1) have "map (\<lambda>srv. if string srv = from then srv\<lparr>string := to, host := h, port := p\<rparr> else srv) (servers st) = servers st" for h p
    by (intro map_idI) auto
  moreover from assms(2) have "map (\<lambda>n. if server n = from then n\<lparr>server := to\<rparr> else n) (ring st) = ring st"
    by (intro map_idI) auto
  ultimately show ?thesis using no
    by (cases conn) (simp_all add: swap_def Let_def)
qed

lemma cached_server_on_ring:
  assumes "consistent env st" "cache st key = Some v"
  shows "v \<in> server ` set (ring st)"
proof -
  from assms have "owner env st key = Inr (Some v)" by (simp add: consistent_def)
  then obtain n i where "find_hr st (hashValue env st key) = Inr i" "elem (ring st) i = Some n" "server n = v"
    by (auto simp: owner_def node_for_def split: sum.splits)
  then show ?thesis by (auto simp: elem_def split: if_splits)
qed

text \<open>
  C8 (as amended). On a consistent state: \<^verbatim>\<open>remove\<close> of an id that no server has, when
  the overrides are all of servers and the ring is the one \<^verbatim>\<open>continuum\<close> builds for the
  present servers (no swap since it was built), returns and leaves the servers, the
  overrides and \<^verbatim>\<open>get(key)\<close> for every key unchanged; \<^verbatim>\<open>swap(from, to)\<close> with a
  \<open>from\<close> that no server has and no ring point bears returns, whatever \<open>to\<close> parses to,
  and leaves the servers, the ring, the cache and \<^verbatim>\<open>get(key)\<close> for every key unchanged.
\<close>

theorem unknown_id_mutations:
  assumes "consistent env st"
  shows "(string c \<notin> string ` set (servers st) \<and> dom (vnodes st) \<subseteq> string ` set (servers st) \<and>
          ring (continuum env (reset st)) = ring st \<longrightarrow>
            (\<exists>st'. remove env st (Some c) = Inr st' \<and> servers st' = servers st \<and>
               vnodes st' = vnodes st \<and>
               (\<forall>key. \<exists>r t t'. get env st key = Inr (r, t) \<and> get env st' key = Inr (r, t')))) \<and>
         (from \<notin> string ` set (servers st) \<and> from \<notin> server ` set (ring st) \<longrightarrow>
            (\<exists>st'. swap st from to conn = Inr st' \<and> servers st' = servers st \<and>
               ring st' = ring st \<and> cache st' = cache st \<and>
               (\<forall>key. \<exists>r t t'. get env st key = Inr (r, t) \<and> get env st' key = Inr (r, t'))))"
proof (intro conjI impI)
  assume h: "string c \<notin> string ` set (servers st) \<and> dom (vnodes st) \<subseteq> string ` set (servers st) \<and>
          ring (continuum env (reset st)) = ring st"
  let ?st' = "continuum env (reset st)"
  from h have rm: "remove env st (Some c) = Inr ?st'" by (simp add: remove_unknown)
  have c': "consistent env ?st'" by (rule consistent_rebuild)
  from assms c' h have "size_hr ?st' = size_hr st" by (simp add: consistent_def)
  with h have "owner env ?st' key = owner env st key" for key
    by (intro owner_cong) simp_all
  from same_owner_same_get [OF assms c' this] rm
  show "\<exists>st'. remove env st (Some c) = Inr st' \<and> servers st' = servers st \<and>
               vnodes st' = vnodes st \<and>
               (\<forall>key. \<exists>r t t'. get env st key = Inr (r, t) \<and> get env st' key = Inr (r, t'))"
    by simp
next
  assume h: "from \<notin> string ` set (servers st) \<and> from \<notin> server ` set (ring st)"
  from swap_unknown [of "from" st to conn] h obtain st' where
    sw: "swap st from to conn = Inr st'" and same: "servers st' = servers st" "ring st' = ring st"
    by blast
  have "cache st' key = cache st key" for key
  proof (cases "cache st key")
    case None
    then show ?thesis by (simp add: swap_cache [OF sw])
  next
    case (Some v)
    from cached_server_on_ring [OF assms Some] h have "v \<noteq> from" by blast
    with Some show ?thesis by (simp add: swap_cache [OF sw] relabel_def)
  qed
  then have cache: "cache st' = cache st" by (rule ext)
  from swap_fields [OF sw] same have "owner env st' key = owner env st key" for key
    by (intro owner_cong) simp_all
  from same_owner_same_get [OF assms swap_consistent [OF sw assms] this] sw same cache
  show "\<exists>st'. swap st from to conn = Inr st' \<and> servers st' = servers st \<and>
               ring st' = ring st \<and> cache st' = cache st \<and>
               (\<forall>key. \<exists>r t t'. get env st key = Inr (r, t) \<and> get env st' key = Inr (r, t'))"
    by blast
qed


lemma rebuild_idem:
  "ring (continuum env (reset (continuum env (reset st)))) = ring (continuum env (reset st))"
proof -
  have "all_points env (continuum env (reset st)) = all_points env st"
    by (rule all_points_cong) simp_all
  then show ?thesis by (simp add: ring_rebuild)
qed

lemma rebuild_HashRing:
  "ring (continuum env (reset (HashRing env srvs vns alg opts))) = ring (HashRing env srvs vns alg opts)"
  using HashRing_rebuild [of env srvs vns alg opts] by (auto simp: rebuild_idem)

text \<open>After \<^verbatim>\<open>add\<close> and \<^verbatim>\<open>remove\<close> too the ring is the one a rebuild gives.\<close>

lemma rebuild_kept:
  "ring (continuum env (reset (add env parse st new))) = ring (add env parse st new)"
  "remove env st gone = Inr st' \<Longrightarrow> ring (continuum env (reset st')) = ring st'"
proof -
  show "ring (continuum env (reset (add env parse st new))) = ring (add env parse st new)"
  proof -
    obtain st2 where "add env parse st new = continuum env (reset st2)"
      using add_rebuild by blast
    then show ?thesis by (simp only: rebuild_idem)
  qed
  show "ring (continuum env (reset st')) = ring st'" if rm: "remove env st gone = Inr st'"
  proof -
    obtain st2 where "st' = continuum env (reset st2)"
      using remove_rebuild [OF rm] by blast
    then show ?thesis by (simp only: rebuild_idem)
  qed
qed


lemma ex_equal_fields:
  "servers ex_equal = [ex_server ''A'' 1, ex_server ''C'' 1]"
  "vnodes ex_equal = [''A'' \<mapsto> Some 0, ''C'' \<mapsto> Some 0]"
  by (simp_all add: ex_equal_def HashRing_def)

lemma ring_ex_equal:
  "ring ex_equal =
     [\<lparr>nvalue = 0x41414141, server = ''A''\<rparr>, \<lparr>nvalue = 0x41414141, server = ''A''\<rparr>,
      \<lparr>nvalue = 0x41414141, server = ''A''\<rparr>, \<lparr>nvalue = 0x41414141, server = ''A''\<rparr>,
      \<lparr>nvalue = 0x43434343, server = ''C''\<rparr>, \<lparr>nvalue = 0x43434343, server = ''C''\<rparr>,
      \<lparr>nvalue = 0x43434343, server = ''C''\<rparr>, \<lparr>nvalue = 0x43434343, server = ''C''\<rparr>]"
  by (simp add: ex_equal_def ex_defs continuum_defs)

text \<open>
  On the ring of the two servers A and C, with the id X for \<^verbatim>\<open>remove\<close> and for
  \<open>from\<close>, and a \<open>to\<close> that parses to no connection.
\<close>

theorem unknown_id_mutations_witness:
  "consistent ex_platform ex_equal \<and>
   string (ex_server ''X'' 1) \<notin> string ` set (servers ex_equal) \<and>
   dom (vnodes ex_equal) \<subseteq> string ` set (servers ex_equal) \<and>
   ring (continuum ex_platform (reset ex_equal)) = ring ex_equal \<and>
   ''X'' \<notin> server ` set (ring ex_equal) \<and>
   (\<exists>st'. remove ex_platform ex_equal (Some (ex_server ''X'' 1)) = Inr st' \<and>
      servers st' = servers ex_equal \<and> vnodes st' = vnodes ex_equal \<and>
      (\<forall>key. \<exists>r t t'. get ex_platform ex_equal key = Inr (r, t) \<and>
                get ex_platform st' key = Inr (r, t'))) \<and>
   (\<exists>st'. swap ex_equal ''X'' ''Y'' None = Inr st' \<and> servers st' = servers ex_equal \<and>
      ring st' = ring ex_equal \<and> cache st' = cache ex_equal \<and>
      (\<forall>key. \<exists>r t t'. get ex_platform ex_equal key = Inr (r, t) \<and>
                get ex_platform st' key = Inr (r, t')))"
proof -
  have c: "consistent ex_platform ex_equal"
    unfolding ex_equal_def by (rule consistent_HashRing)
  have x: "string (ex_server ''X'' 1) \<notin> string ` set (servers ex_equal)"
    "''X'' \<notin> string ` set (servers ex_equal)"
    by (simp_all add: ex_equal_fields ex_server_def)
  have d: "dom (vnodes ex_equal) \<subseteq> string ` set (servers ex_equal)"
    by (simp add: ex_equal_fields ex_server_def)
  have r: "ring (continuum ex_platform (reset ex_equal)) = ring ex_equal"
    unfolding ex_equal_def by (rule rebuild_HashRing)
  have n: "''X'' \<notin> server ` set (ring ex_equal)"
    by (simp add: ring_ex_equal)
  from unknown_id_mutations [OF c, of "ex_server ''X'' 1" "''X''" "''Y''" None] c x d r n
  show ?thesis by blast
qed

lemma ex_swapped_fields:
  "servers ex_swapped = [ex_server ''B'' 1, ex_server ''C'' 1]"
  "size_hr ex_swapped = 8"
  "hash ex_swapped = first_char_hash"
  "cache ex_swapped = Map.empty"
  "ring ex_swapped =
     [\<lparr>nvalue = 0x41414141, server = ''B''\<rparr>, \<lparr>nvalue = 0x41414141, server = ''B''\<rparr>,
      \<lparr>nvalue = 0x41414141, server = ''B''\<rparr>, \<lparr>nvalue = 0x41414141, server = ''B''\<rparr>,
      \<lparr>nvalue = 0x43434343, server = ''C''\<rparr>, \<lparr>nvalue = 0x43434343, server = ''C''\<rparr>,
      \<lparr>nvalue = 0x43434343, server = ''C''\<rparr>, \<lparr>nvalue = 0x43434343, server = ''C''\<rparr>]"
  by (simp_all add: ex_swapped_def swap_def Let_def ring_ex_equal ex_equal_fields fun_eq_iff)
    (simp_all add: ex_equal_def ex_defs continuum_defs)

lemma ex_rebuilt_fields:
  "size_hr ex_rebuilt = 8"
  "hash ex_rebuilt = first_char_hash"
  "cache ex_rebuilt = Map.empty"
  "ring ex_rebuilt =
     [\<lparr>nvalue = 0x42424242, server = ''B''\<rparr>, \<lparr>nvalue = 0x42424242, server = ''B''\<rparr>,
      \<lparr>nvalue = 0x42424242, server = ''B''\<rparr>, \<lparr>nvalue = 0x42424242, server = ''B''\<rparr>,
      \<lparr>nvalue = 0x43434343, server = ''C''\<rparr>, \<lparr>nvalue = 0x43434343, server = ''C''\<rparr>,
      \<lparr>nvalue = 0x43434343, server = ''C''\<rparr>, \<lparr>nvalue = 0x43434343, server = ''C''\<rparr>]"
  by (simp_all add: ex_rebuilt_def remove_def ex_swapped_def swap_def Let_def ex_equal_def reset_def
      ex_defs continuum_defs)

lemmas get_defs = get_def cache_get_def node_for_def find_hr_def hashValue_def digest_def
  elem_def hashvalue_hash_def byte_of_def first_char_hash_def find_loop.simps ex_platform_def

text \<open>
  C8 as stated fails for \<^verbatim>\<open>remove\<close> after a swap: on the ring of A and C with A swapped
  for B, the points of B stand where A placed them and the key B belongs to C; the
  removal of the unknown id X rebuilds the ring, B gets its own points, and the key B
  belongs to B.
\<close>

theorem remove_unknown_after_swap_counterexample:
  "consistent ex_platform ex_swapped \<and>
   ''X'' \<notin> string ` set (servers ex_swapped) \<and>
   remove ex_platform ex_swapped (Some (ex_server ''X'' 1)) = Inr ex_rebuilt \<and>
   map_sum id fst (get ex_platform ex_swapped ''B'') = Inr (Some ''C'') \<and>
   map_sum id fst (get ex_platform ex_rebuilt ''B'') = Inr (Some ''B'')"
proof -
  have "consistent ex_platform ex_equal"
    unfolding ex_equal_def by (rule consistent_HashRing)
  from swap_consistent [OF swap_Some this] have "consistent ex_platform ex_swapped"
    by (simp add: ex_swapped_def)
  moreover have "''X'' \<notin> string ` set (servers ex_swapped)"
    by (simp add: ex_swapped_fields ex_server_def)
  moreover have "remove ex_platform ex_swapped (Some (ex_server ''X'' 1)) = Inr ex_rebuilt"
    unfolding ex_rebuilt_def by (rule remove_Some)
  moreover have "map_sum id fst (get ex_platform ex_swapped ''B'') = Inr (Some ''C'')"
    by (simp add: get_defs ex_swapped_fields)
  moreover have "map_sum id fst (get ex_platform ex_rebuilt ''B'') = Inr (Some ''B'')"
    by (simp add: get_defs ex_rebuilt_fields)
  ultimately show ?thesis by blast
qed

text \<open>
  The override of \<open>to\<close> does not survive a swap from an id that has none: here B loses
  its override of 2 virtual nodes to \<^verbatim>\<open>swap('X', 'B')\<close>.
\<close>

lemma swap_unknown_overwrites_override:
  "''X'' \<notin> string ` set (servers ex_override) \<and> ''X'' \<notin> server ` set (ring ex_override) \<and>
   vnodes ex_override ''B'' = Some (Some 2) \<and>
   map_sum id (\<lambda>st'. vnodes st' ''B'') (swap ex_override ''X'' ''B'' (Some (ex_server ''B'' 1))) =
     Inr (Some None)"
  by (simp add: swap_def Let_def prop_read_def ex_override_def ex_defs continuum_defs)

section \<open>Removal\<close>

lemma successor_index_nth:
  assumes "successor_index rng hv i"
  shows "successor rng hv = Some (rng ! i)"
proof (cases "list_ex (\<lambda>n. hv \<le> nvalue n) rng")
  case True
  with assms have i: "i < length rng" "hv \<le> nvalue (rng ! i)"
    "list_all (\<lambda>n. nvalue n < hv) (take i rng)"
    by (simp_all add: successor_index_def)
  have "\<not> hv \<le> nvalue (rng ! j)" if "j < i" for j
  proof -
    from that i(1) have "rng ! j \<in> set (take i rng)"
      by (auto simp: in_set_conv_nth intro!: exI [of _ j])
    with i(3) show ?thesis by (auto simp: list_all_iff)
  qed
  with i have "List.find (\<lambda>n. hv \<le> nvalue n) rng = Some (rng ! i)"
    by (auto simp: find_Some_iff)
  then show ?thesis by (simp add: successor_def)
next
  case False
  with assms have i: "i = 0" "rng \<noteq> []" by (auto simp: successor_index_def)
  from False have "List.find (\<lambda>n. hv \<le> nvalue n) rng = None"
    by (auto simp: find_None_iff list_ex_iff)
  with i show ?thesis by (cases rng) (simp_all add: successor_def)
qed

lemma node_for_successor:
  assumes "size_hr st = length (ring st)" "sorted (map nvalue (ring st))"
  shows "node_for env st key = Inr (successor (ring st) (hashValue env st key))"
proof (cases "ring st = []")
  case True
  with node_for_total [OF assms(1), of env key] show ?thesis by (auto simp: successor_def)
next
  case False
  from find_loop_successor [OF assms(2) False, of 0 "int (length (ring st))" "hashValue env st key"]
  obtain i where i: "find_hr st (hashValue env st key) = Inr i"
    "successor_index (ring st) (hashValue env st key) i"
    using assms(1) by (auto simp: find_hr_def)
  from i(2) have "i < length (ring st)" by (simp add: successor_index_def)
  with i successor_index_nth [OF i(2)] show ?thesis by (simp add: node_for_def elem_def)
qed

lemma find_filter_Some:
  "List.find Q xs = Some x \<Longrightarrow> P x \<Longrightarrow> List.find Q (filter P xs) = Some x"
  by (induction xs) (auto split: if_splits)

lemma find_filter_None:
  "List.find Q xs = None \<Longrightarrow> List.find Q (filter P xs) = None"
  by (auto simp: find_None_iff)

lemma successor_filter:
  assumes "successor rng hv = Some n" "P n"
  shows "successor (filter P rng) hv = Some n"
proof (cases "List.find (\<lambda>n. hv \<le> nvalue n) rng")
  case None
  with assms obtain rest where "rng = n # rest" by (cases rng) (auto simp: successor_def)
  with assms(2) find_filter_None [OF None, of P] show ?thesis by (simp add: successor_def)
next
  case (Some m)
  with assms have "m = n" by (simp add: successor_def)
  with find_filter_Some [OF Some, of P] assms(2) show ?thesis by (simp add: successor_def)
qed

lemma replica_node_server [simp]: "server (replica_node env srv x j) = string srv"
  by (simp add: replica_node_def)

lemma server_points_owner: "n \<in> set (server_points env st tot srv) \<Longrightarrow> server n = string srv"
  by (auto simp: server_points_def vnode_points_def)

lemma filter_server_points:
  "filter (\<lambda>n. server n \<noteq> s) (server_points env st tot srv) =
     (if string srv \<noteq> s then server_points env st tot srv else [])"
  by (auto simp: filter_empty_conv filter_id_conv dest: server_points_owner)

lemma concat_map_filter_servers:
  "concat (map (\<lambda>srv. if string srv \<noteq> s then f srv else []) srvs) =
   concat (map f (filter (\<lambda>srv. string srv \<noteq> s) srvs))"
  by (induction srvs) auto

lemma placed_cong:
  assumes "servers st' = servers st" "vnodes st' = vnodes st" "vnode st' = vnode st"
  shows "placed env st' = placed env st"
  by (intro ext)
    (simp add: placed_def total_weight_def assms(1) server_length_cong [OF assms(1,2,3)])

lemma all_points_removed:
  fixes st :: hashring and s :: string
  defines "st2 \<equiv> st\<lparr>vnodes := (vnodes st)(s := None),
                      servers := filter (\<lambda>srv. string srv \<noteq> s) (servers st)\<rparr>"
  assumes "\<forall>srv \<in> set (servers st2). placed env st2 srv = placed env st srv"
  shows "all_points env st2 = filter (\<lambda>n. server n \<noteq> s) (all_points env st)"
proof -
  let ?W = "total_weight env st" and ?W2 = "total_weight env st2"
  have "server_points env st2 ?W2 srv = server_points env st ?W srv" if "srv \<in> set (servers st2)" for srv
  proof -
    from that assms(2) have "server_length env st2 ?W2 srv = server_length env st ?W srv"
      by (simp add: placed_def)
    moreover have "vnode_points env st2 = vnode_points env st"
      by (rule vnode_points_cong) (simp_all add: st2_def)
    ultimately show ?thesis by (simp add: server_points_def)
  qed
  then have "all_points env st2 = concat (map (server_points env st ?W) (servers st2))"
    by (simp add: all_points_def cong: map_cong)
  also have "\<dots> = filter (\<lambda>n. server n \<noteq> s) (all_points env st)"
    by (simp add: all_points_def filter_concat comp_def filter_server_points
        concat_map_filter_servers st2_def)
  finally show ?thesis .
qed

lemma ring_rebuild_sort: "ring (continuum env (reset st)) = sort_key nvalue (all_points env st)"
  by (simp add: ring_rebuild all_points_def)

lemma ring_removed:
  assumes "remove env st (Some c) = Inr st'"
    "\<forall>srv \<in> set (servers st'). placed env st' srv = placed env st srv"
    "ring (continuum env (reset st)) = ring st"
  shows "ring st' = filter (\<lambda>n. server n \<noteq> string c) (ring st)"
proof -
  let ?st2 = "st\<lparr>vnodes := (vnodes st)(string c := None),
                  servers := filter (\<lambda>srv. string srv \<noteq> string c) (servers st)\<rparr>"
  from assms(1) have st': "st' = continuum env (reset ?st2)" by (simp add: remove_def)
  have "placed env st' = placed env ?st2"
    unfolding st' by (rule placed_cong) simp_all
  with assms(2) st' have same: "\<forall>srv \<in> set (servers ?st2). placed env ?st2 srv = placed env st srv"
    by simp
  from st' have "ring st' = sort_key nvalue (all_points env ?st2)" by (simp add: ring_rebuild_sort)
  also have "\<dots> = filter (\<lambda>n. server n \<noteq> string c) (sort_key nvalue (all_points env st))"
    by (simp add: all_points_removed [OF same] filter_sort)
  also have "\<dots> = filter (\<lambda>n. server n \<noteq> string c) (ring st)"
    using assms(3) by (simp add: ring_rebuild_sort)
  finally show ?thesis .
qed

text \<open>
  In exact arithmetic servers of one weight are placed their virtual nodes whatever their
  number, so the removal of one changes nothing for the others. (Doubles do not always
  agree: for seven servers of weight 1, \<^verbatim>\<open>(1 / 7) * 40 * 7\<close> is below 40.)
\<close>

lemma foldl_plus_equal_weights:
  assumes "\<forall>w' \<in> set ws. w' = w"
  shows "foldl (+) a ws = a + of_nat (length ws) * (w :: rat)"
  using assms by (induction ws arbitrary: a) (auto simp: algebra_simps)

lemma placed_equal_weights:
  assumes "js_plus env = (+)" "js_floor_length env = exact_floor_length"
    "\<forall>srv \<in> set (servers st). weight srv = w" "srv \<in> set (servers st)"
  shows "placed env st srv = (if w = 0 then 0 else server_vnodes st srv)"
proof -
  from assms(4) have n: "length (servers st) \<noteq> 0" by auto
  from assms(3,4) have w: "weight srv = w" by simp
  from assms(3) have tot: "total_weight env st = of_nat (length (servers st)) * w"
    by (simp add: total_weight_def assms(1) foldl_plus_equal_weights [of _ w])
  show ?thesis
  proof (cases "w = 0")
    case True
    with w show ?thesis
      by (simp add: placed_def server_length_def assms(2) exact_floor_length_def)
  next
    case False
    with n have "w / (of_nat (length (servers st)) * w) * of_nat (server_vnodes st srv) * of_nat (length (servers st))
        = (of_nat (server_vnodes st srv) :: rat)"
      by (simp add: field_simps)
    with False w show ?thesis
      by (simp add: placed_def server_length_def assms(2) exact_floor_length_def tot)
  qed
qed

lemma remove_equal_weights:
  assumes "js_plus env = (+)" "js_floor_length env = exact_floor_length"
    "\<forall>srv \<in> set (servers st). weight srv = w" "remove env st (Some c) = Inr st'"
  shows "\<forall>srv \<in> set (servers st'). placed env st' srv = placed env st srv"
proof
  fix srv assume in': "srv \<in> set (servers st')"
  from assms(4) have s': "servers st' = filter (\<lambda>srv. string srv \<noteq> string c) (servers st)"
    "vnodes st' = (vnodes st)(string c := None)" "vnode st' = vnode st"
    by (auto simp: remove_def)
  from in' s'(1) have in1: "srv \<in> set (servers st)" and ne: "string srv \<noteq> string c" by simp_all
  from assms(3) s'(1) have eq': "\<forall>srv \<in> set (servers st'). weight srv = w" by simp
  from ne s' have "server_vnodes st' srv = server_vnodes st srv"
    by (simp add: server_vnodes_def prop_read_def split: option.splits)
  with placed_equal_weights [OF assms(1,2) eq' in'] placed_equal_weights [OF assms(1,2,3) in1]
  show "placed env st' srv = placed env st srv" by simp
qed

text \<open>
  C2 (as amended). On a consistent state whose ring is the one \<^verbatim>\<open>continuum\<close> builds for
  the present servers: if \<^verbatim>\<open>remove\<close> of a server leaves every remaining server with
  the number of virtual nodes it was placed before (the length \<open>floor((w / W) * vnodes *
  serverCount)\<close> is unchanged for it), then \<^verbatim>\<open>get(key)\<close> returns the server it returned
  before for every key that did not belong to the removed server. The digest function is
  the same before and after.
\<close>

theorem remove_minimal_disruption:
  assumes "consistent env st"
    and "ring (continuum env (reset st)) = ring st"
    and "remove env st (Some c) = Inr st'"
    and "\<forall>srv \<in> set (servers st'). placed env st' srv = placed env st srv"
    and "get env st key = Inr (Some t, u)"
    and "t \<noteq> string c"
  shows "\<exists>u'. get env st' key = Inr (Some t, u')"
proof -
  note rm = assms(3)
  from assms(1) have wf: "size_hr st = length (ring st)" by (simp add: consistent_def)
  from assms(2) have sorted: "sorted (map nvalue (ring st))"
    by (metis ring_rebuild_sort sorted_sort_key)
  from get_owner [OF assms(1), of key] assms(5) have "owner env st key = Inr (Some t)" by auto
  with node_for_successor [OF wf sorted, of env key] obtain n where
    n: "successor (ring st) (hashValue env st key) = Some n" "server n = t"
    by (auto simp: owner_def)
  note ring' = ring_removed [OF rm assms(4,2)]
  from remove_rebuild [OF rm] have c': "consistent env st'" by (auto simp: consistent_rebuild)
  then have wf': "size_hr st' = length (ring st')" by (simp add: consistent_def)
  from ring' sorted have sorted': "sorted (map nvalue (ring st'))"
    by (simp add: sorted_filter)
  from rm have "hash st' = hash st" by (auto simp: remove_def)
  then have hv: "hashValue env st' key = hashValue env st key" by (simp add: hashValue_def digest_def)
  from n assms(6) have "successor (ring st') (hashValue env st' key) = Some n"
    unfolding ring' hv by (intro successor_filter) simp_all
  with node_for_successor [OF wf' sorted', of env key] n(2) have "owner env st' key = Inr (Some t)"
    by (simp add: owner_def)
  with get_owner [OF c', of key] show ?thesis by auto
qed

lemma ex_equal_state:
  "size_hr ex_equal = 8" "hash ex_equal = first_char_hash" "cache ex_equal = Map.empty"
  by (simp_all add: ex_equal_def ex_defs continuum_defs)

text \<open>
  On the ring of the two servers A and C of weight 1: the key A belongs to A, and still
  does after the removal of C.
\<close>

theorem remove_minimal_disruption_witness:
  "consistent ex_platform ex_equal \<and>
   ring (continuum ex_platform (reset ex_equal)) = ring ex_equal \<and>
   remove ex_platform ex_equal (Some (ex_server ''C'' 1)) = Inr ex_shrunk \<and>
   list_all (\<lambda>srv. placed ex_platform ex_shrunk srv = placed ex_platform ex_equal srv)
     (servers ex_shrunk) \<and>
   get ex_platform ex_equal ''A'' =
     Inr (Some ''A'', ex_equal\<lparr>cache := (cache ex_equal)(''A'' \<mapsto> ''A'')\<rparr>) \<and>
   ''A'' \<noteq> string (ex_server ''C'' 1) \<and>
   (\<exists>u'. get ex_platform ex_shrunk ''A'' = Inr (Some ''A'', u'))"
proof -
  have c: "consistent ex_platform ex_equal"
    unfolding ex_equal_def by (rule consistent_HashRing)
  have r: "ring (continuum ex_platform (reset ex_equal)) = ring ex_equal"
    unfolding ex_equal_def by (rule rebuild_HashRing)
  have w: "\<forall>srv \<in> set (servers ex_equal). weight srv = 1"
    by (simp add: ex_equal_fields ex_server_def)
  have rm: "remove ex_platform ex_equal (Some (ex_server ''C'' 1)) = Inr ex_shrunk"
    unfolding ex_shrunk_def by (rule remove_Some)
  have p: "\<forall>srv \<in> set (servers ex_shrunk). placed ex_platform ex_shrunk srv = placed ex_platform ex_equal srv"
    by (rule remove_equal_weights [OF _ _ w rm]) (simp_all add: ex_platform_def)
  have g: "get ex_platform ex_equal ''A'' =
     Inr (Some ''A'', ex_equal\<lparr>cache := (cache ex_equal)(''A'' \<mapsto> ''A'')\<rparr>)"
    by (simp add: get_defs ex_equal_state ring_ex_equal)
  have n: "''A'' \<noteq> string (ex_server ''C'' 1)" by (simp add: ex_server_def)
  from p have "list_all (\<lambda>srv. placed ex_platform ex_shrunk srv = placed ex_platform ex_equal srv)
     (servers ex_shrunk)" by (simp add: list_all_iff)
  with remove_minimal_disruption [OF c r rm p g n] c r rm g n show ?thesis by blast
qed

lemma ex_weighted_state:
  "hash ex_weighted = first_char_hash" "cache ex_weighted = Map.empty"
  by (simp_all add: ex_weighted_def ex_defs continuum_defs)

lemma ex_removed_state:
  "size_hr ex_removed = 4"
  "hash ex_removed = first_char_hash"
  "cache ex_removed = Map.empty"
  "ring ex_removed =
     [\<lparr>nvalue = 0x43434343, server = ''C''\<rparr>, \<lparr>nvalue = 0x43434343, server = ''C''\<rparr>,
      \<lparr>nvalue = 0x43434343, server = ''C''\<rparr>, \<lparr>nvalue = 0x43434343, server = ''C''\<rparr>]"
  by (simp_all add: ex_removed_def remove_def ex_weighted_def reset_def ex_defs continuum_defs)

text \<open>
  C2 as stated fails for unequal weights: with the weights 1, 2 and 3 and one virtual
  node, A is placed \<open>floor(1/6 * 1 * 3) = 0\<close> virtual nodes, B and C one each, and the
  key A belongs to B. After \<^verbatim>\<open>remove\<close> of A the weights 2 and 3 give B
  \<open>floor(2/5 * 1 * 2) = 0\<close> virtual nodes, and the key A belongs to C. (Doubles give
  the same floors here: 0.5, 1 and 1.5 before, 0.8 and 1.2 after.)
\<close>

theorem remove_moves_other_keys_counterexample:
  "consistent ex_platform ex_weighted \<and>
   ring (continuum ex_platform (reset ex_weighted)) = ring ex_weighted \<and>
   remove ex_platform ex_weighted (Some (ex_server ''A'' 1)) = Inr ex_removed \<and>
   map_sum id fst (get ex_platform ex_weighted ''A'') = Inr (Some ''B'') \<and>
   ''B'' \<noteq> string (ex_server ''A'' 1) \<and>
   map_sum id fst (get ex_platform ex_removed ''A'') = Inr (Some ''C'')"
proof -
  have "consistent ex_platform ex_weighted"
    unfolding ex_weighted_def by (rule consistent_HashRing)
  moreover have "ring (continuum ex_platform (reset ex_weighted)) = ring ex_weighted"
    unfolding ex_weighted_def by (rule rebuild_HashRing)
  moreover have "remove ex_platform ex_weighted (Some (ex_server ''A'' 1)) = Inr ex_removed"
    unfolding ex_removed_def by (rule remove_Some)
  moreover have "map_sum id fst (get ex_platform ex_weighted ''A'') = Inr (Some ''B'')"
    by (simp add: get_defs ex_weighted_state size_ex_weighted ring_ex_weighted)
  moreover have "''B'' \<noteq> string (ex_server ''A'' 1)" by (simp add: ex_server_def)
  moreover have "map_sum id fst (get ex_platform ex_removed ''A'') = Inr (Some ''C'')"
    by (simp add: get_defs ex_removed_state)
  ultimately show ?thesis by blast
qed

section \<open>Range\<close>

lemma remdups_drop_seen: "x \<in> set zs \<Longrightarrow> remdups (ys @ x # zs) = remdups (ys @ zs)"
  by (induction ys) auto

lemma first_seen_remdups:
  "distinct seen \<Longrightarrow> first_seen seen xs = rev (remdups (rev (seen @ xs)))"
proof (induction xs arbitrary: seen)
  case Nil
  then show ?case by (simp add: distinct_remdups_id)
next
  case (Cons x xs)
  show ?case
  proof (cases "x \<in> set seen")
    case True
    then have "remdups (rev xs @ x # rev seen) = remdups (rev xs @ rev seen)"
      by (intro remdups_drop_seen) simp
    with True Cons show ?thesis by simp
  next
    case False
    with Cons.prems have "distinct (seen @ [x])" by simp
    from Cons.IH [OF this] False show ?thesis by simp
  qed
qed

lemma first_seen_prefix: "\<exists>more. first_seen seen xs = seen @ more"
proof (induction xs arbitrary: seen)
  case Nil
  then show ?case by simp
next
  case (Cons x xs)
  from Cons [of seen] Cons [of "seen @ [x]"] show ?case by auto
qed

lemma first_seen_append: "first_seen seen (xs @ ys) = first_seen (first_seen seen xs) ys"
  by (induction xs arbitrary: seen) auto

lemma take_first_seen:
  assumes "n \<le> length (first_seen seen xs)"
  shows "take n (first_seen (first_seen seen xs) ys) = take n (first_seen seen xs)"
proof -
  from first_seen_prefix [of "first_seen seen xs" ys] obtain more where
    "first_seen (first_seen seen xs) ys = first_seen seen xs @ more" by blast
  with assms show ?thesis by simp
qed

lemma range_loop_unique:
  "length srvs < sz \<Longrightarrow>
   range_loop ns True sz srvs =
     (if sz \<le> length (first_seen srvs (map server ns))
      then (take sz (first_seen srvs (map server ns)), True)
      else (first_seen srvs (map server ns), False))"
proof (induction ns arbitrary: srvs)
  case Nil
  then show ?case by simp
next
  case (Cons n ns)
  define srvs' where "srvs' = (if server n \<in> set srvs then srvs else srvs @ [server n])"
  have fs: "first_seen srvs (map server (n # ns)) = first_seen srvs' (map server ns)"
    by (simp add: srvs'_def)
  show ?case
  proof (cases "length srvs' = sz")
    case True
    from first_seen_prefix [of srvs' "map server ns"] obtain more where
      "first_seen srvs' (map server ns) = srvs' @ more" by blast
    with True have "sz \<le> length (first_seen srvs' (map server ns))"
      "take sz (first_seen srvs' (map server ns)) = srvs'" by simp_all
    with True show ?thesis unfolding fs by (simp add: srvs'_def Let_def)
  next
    case False
    with Cons.prems have "length srvs' < sz" by (simp add: srvs'_def split: if_splits)
    from Cons.IH [OF this] False show ?thesis unfolding fs by (simp add: srvs'_def Let_def)
  qed
qed

lemma range_unique_walk:
  assumes "find_hr st (hashValue env st key) = Inr position" "size_hr st \<noteq> 0" "0 < n"
  shows "range_hr env st key (Some n) (Some True) =
           Inr (take n (first_seen [] (map server (drop position (ring st) @ take position (ring st)))))"
proof -
  let ?xs = "map server (drop position (ring st))" and ?ys = "map server (take position (ring st))"
  let ?u1 = "first_seen [] ?xs"
  have walk: "first_seen [] (map server (drop position (ring st) @ take position (ring st))) = first_seen ?u1 ?ys"
    by (simp add: first_seen_append)
  note l1 = range_loop_unique [of "[]" n "drop position (ring st)", simplified, OF assms(3)]
  show ?thesis
  proof (cases "n \<le> length ?u1")
    case True
    with l1 assms show ?thesis
      unfolding walk by (simp add: range_hr_def take_first_seen)
  next
    case False
    then have "length ?u1 < n" by simp
    note l2 = range_loop_unique [OF this, of "take position (ring st)"]
    from False l1 l2 assms show ?thesis
      unfolding walk by (simp add: range_hr_def)
  qed
qed

text \<open>
  C9. On a non-empty ring and for a positive \<open>n\<close>, \<^verbatim>\<open>range(key, n, true)\<close> returns
  the ids met on the walk from the position of the key to the end of the ring and on
  from its start, each id once and where the walk first meets it, cut after \<open>n\<close>: they
  are distinct and \<open>min n d\<close> many, \<open>d\<close> being the number of ids on the ring. An omitted
  \<open>unique\<close> is true, an omitted size is the number of servers, and on the empty
  ring the result is the empty list.
\<close>

theorem range_unique:
  "(size_hr st = length (ring st) \<and> ring st \<noteq> [] \<and> 0 < n \<longrightarrow>
      (\<exists>position res.
         find_hr st (hashValue env st key) = Inr position \<and>
         range_hr env st key (Some n) (Some True) = Inr res \<and>
         res = take n (rev (remdups (rev
                 (map server (drop position (ring st) @ take position (ring st)))))) \<and>
         distinct res \<and>
         length res = min n (card (server ` set (ring st))))) \<and>
   range_hr env st key sz None = range_hr env st key sz (Some True) \<and>
   range_hr env st key None u = range_hr env st key (Some (length (servers st))) u \<and>
   (size_hr st = length (ring st) \<and> ring st = [] \<longrightarrow> range_hr env st key sz u = Inr [])"
proof (intro conjI impI)
  assume a: "size_hr st = length (ring st) \<and> ring st \<noteq> [] \<and> 0 < n"
  from find_hr_total [of st "hashValue env st key"] a obtain position where
    p: "find_hr st (hashValue env st key) = Inr position" by auto
  let ?walk = "map server (drop position (ring st) @ take position (ring st))"
  let ?res = "take n (rev (remdups (rev ?walk)))"
  from a have "size_hr st \<noteq> 0" by simp
  from range_unique_walk [OF p this, of n] a
  have r: "range_hr env st key (Some n) (Some True) = Inr ?res"
    by (simp add: first_seen_remdups)
  have "set ?walk = server ` set (ring st)"
    using set_append [of "take position (ring st)" "drop position (ring st)"]
    by (simp add: image_Un Un_commute)
  then have "length (rev (remdups (rev ?walk))) = card (server ` set (ring st))"
    by (metis length_rev length_remdups_card_conv set_rev)
  then have "distinct ?res" "length ?res = min n (card (server ` set (ring st)))"
    by (simp_all add: distinct_take min.commute)
  with p r show "\<exists>position res.
         find_hr st (hashValue env st key) = Inr position \<and>
         range_hr env st key (Some n) (Some True) = Inr res \<and>
         res = take n (rev (remdups (rev
                 (map server (drop position (ring st) @ take position (ring st)))))) \<and>
         distinct res \<and>
         length res = min n (card (server ` set (ring st)))"
    by blast
next
  show "range_hr env st key sz None = range_hr env st key sz (Some True)"
    by (simp add: range_hr_def)
  show "range_hr env st key None u = range_hr env st key (Some (length (servers st))) u"
    by (simp add: range_hr_def)
  show "range_hr env st key sz u = Inr []" if "size_hr st = length (ring st) \<and> ring st = []"
    using that by (simp add: range_hr_def)
qed

lemma range_ex_weighted:
  "range_hr ex_platform ex_weighted ''C'' (Some 2) (Some True) = Inr [''C'', ''B'']"
  "range_hr ex_platform ex_weighted ''C'' (Some 1) (Some True) = Inr [''C'']"
  "range_hr ex_platform ex_weighted ''C'' None None = Inr [''C'', ''B'']"
  by (simp_all add: range_hr_def get_defs ex_weighted_state size_ex_weighted ring_ex_weighted
      servers_ex_weighted)

text \<open>
  On the example ring the walk from the key C meets C, then B, and asks for (at most)
  five ids.
\<close>

theorem range_unique_witness:
  "size_hr ex_weighted = length (ring ex_weighted) \<and> ring ex_weighted \<noteq> [] \<and> (0::nat) < 5 \<and>
   (\<exists>position res.
      find_hr ex_weighted (hashValue ex_platform ex_weighted ''C'') = Inr position \<and>
      range_hr ex_platform ex_weighted ''C'' (Some 5) (Some True) = Inr res \<and>
      res = take 5 (rev (remdups (rev
              (map server (drop position (ring ex_weighted) @ take position (ring ex_weighted)))))) \<and>
      distinct res \<and>
      length res = min 5 (card (server ` set (ring ex_weighted)))) \<and>
   size_hr ex_empty = length (ring ex_empty) \<and> ring ex_empty = [] \<and>
   range_hr ex_platform ex_empty ''C'' (Some 5) (Some True) = Inr []"
proof -
  have h: "size_hr ex_weighted = length (ring ex_weighted) \<and> ring ex_weighted \<noteq> [] \<and> (0::nat) < 5"
    by (simp add: ring_ex_weighted size_ex_weighted)
  have e: "size_hr ex_empty = length (ring ex_empty) \<and> ring ex_empty = []"
    by (simp add: ex_empty_def HashRing_def continuum_def)
  from range_unique [of ex_weighted 5 ex_platform "''C''"] h
    range_unique [of ex_empty _ ex_platform "''C''" "Some 5" "Some True"] e
  show ?thesis by blast
qed

section \<open>Coordinate packing\<close>




end
